theory Spec2Isabelle
  imports Main "HOL-Library.Signed_Division" "HOL-Library.Multiset"
begin

section \<open>The 8-puzzle search engine of \<^verbatim>\<open>server.js\<close>\<close>

text \<open>
  The engine works on a grid of numbers (an array of row arrays), wraps grids into
  \<^verbatim>\<open>PuzzleState\<close> objects that remember the parent state and the move that
  produced them, and explores the state space with one of three loops
  (\<^verbatim>\<open>bfs\<close>, \<^verbatim>\<open>bestFirstSearch\<close>, \<^verbatim>\<open>aStar\<close>).

  Arrays are lists, numbers are mathematical integers, \<^verbatim>\<open>null\<close> is \<open>None\<close>.
  A JavaScript exception is a value \<open>Inl e\<close> of a sum type. The logging calls and the
  \<^verbatim>\<open>iterations\<close> counter, which only feeds the logging, are left out.
\<close>

subsection \<open>Data model\<close>

type_synonym board = "int list list"

type_synonym move = "int \<times> int"

text \<open>
  \<open>TypeError\<close>: the source throws (a property of \<^verbatim>\<open>undefined\<close> is read, or
  \<^verbatim>\<open>undefined\<close> is destructured). \<open>OffGrid\<close>: a cell past the end of a row is
  read where the source would go on computing with \<^verbatim>\<open>undefined\<close> or
  \<^verbatim>\<open>NaN\<close>; grids of integers cannot hold these values, so the model stops there
  and says so.
\<close>

datatype error = TypeError | OffGrid

text \<open>
  \<^verbatim>\<open>class PuzzleState\<close>: the fields \<^verbatim>\<open>board, parent, move, g, h, f\<close>.
\<close>

datatype PuzzleState =
  PuzzleState (board: board) (parent: "PuzzleState option") (move: "move option")
    (g: int) (h: int) (f: int)

text \<open>The constructor: \<^verbatim>\<open>this.g = parent ? parent.g + 1 : 0; this.h = 0; this.f = 0\<close>.\<close>

definition new_PuzzleState :: "board \<Rightarrow> PuzzleState option \<Rightarrow> move option \<Rightarrow> PuzzleState" where
  "new_PuzzleState b p m =
     PuzzleState b p m (case p of Some q \<Rightarrow> g q + 1 | None \<Rightarrow> 0) 0 0"

text \<open>The assignments \<^verbatim>\<open>neighbor.h = ...\<close> and \<^verbatim>\<open>neighbor.f = ...\<close>.\<close>

definition set_h :: "int \<Rightarrow> PuzzleState \<Rightarrow> PuzzleState" where
  "set_h v s = PuzzleState (board s) (parent s) (move s) (g s) v (f s)"

definition set_f :: "int \<Rightarrow> PuzzleState \<Rightarrow> PuzzleState" where
  "set_f v s = PuzzleState (board s) (parent s) (move s) (g s) (h s) v"

subsection \<open>Identity: \<^verbatim>\<open>getId\<close> and \<^verbatim>\<open>isGoal\<close>\<close>

text \<open>
  \<^verbatim>\<open>this.board.flat().join(',')\<close>: the decimal rendering of every number of the
  flattened grid, separated by commas.
\<close>

definition digit_char :: "nat \<Rightarrow> char" where
  "digit_char d = char_of (48 + d)"

fun digits :: "nat \<Rightarrow> string" where
  "digits n = (if n < 10 then [digit_char n] else digits (n div 10) @ [digit_char (n mod 10)])"

declare digits.simps [simp del]

definition number_toString :: "int \<Rightarrow> string" where
  "number_toString n = (if n < 0 then CHR ''-'' # digits (nat (- n)) else digits (nat n))"

fun join :: "string \<Rightarrow> string list \<Rightarrow> string" where
  "join sep [] = []"
| "join sep [x] = x"
| "join sep (x # y # ys) = x @ sep @ join sep (y # ys)"

definition flat :: "'a list list \<Rightarrow> 'a list" where
  "flat rows = concat rows"

definition getId :: "PuzzleState \<Rightarrow> string" where
  "getId s = join '','' (map number_toString (flat (board s)))"

definition isGoal :: "PuzzleState \<Rightarrow> bool" where
  "isGoal s = (getId s = ''1,2,3,4,5,6,7,8,0'')"

subsection \<open>Successor generation: \<^verbatim>\<open>findZero\<close> and \<^verbatim>\<open>getNeighbors\<close>\<close>

text \<open>
  The two nested loops \<^verbatim>\<open>for i < 3, for j < 3\<close> visit the cells in this order.
\<close>

definition cells :: "(nat \<times> nat) list" where
  "cells = [(0,0), (0,1), (0,2), (1,0), (1,1), (1,2), (2,0), (2,1), (2,2)]"

text \<open>
  \<^verbatim>\<open>findZero\<close>: reading a missing row throws; a missing cell of a row is
  \<^verbatim>\<open>undefined\<close>, which is not \<^verbatim>\<open>=== 0\<close>; falling off the loops returns
  \<^verbatim>\<open>undefined\<close>, here \<open>None\<close>.
\<close>

fun findZero_scan :: "board \<Rightarrow> (nat \<times> nat) list \<Rightarrow> error + (nat \<times> nat) option" where
  "findZero_scan b [] = Inr None"
| "findZero_scan b ((i, j) # rest) =
     (if length b \<le> i then Inl TypeError
      else if j < length (b ! i) \<and> b ! i ! j = 0 then Inr (Some (i, j))
      else findZero_scan b rest)"

definition findZero :: "PuzzleState \<Rightarrow> error + (nat \<times> nat) option" where
  "findZero s = findZero_scan (board s) cells"

definition moves :: "move list" where
  "moves = [(0, 1), (1, 0), (0, -1), (-1, 0)]"

text \<open>
  The destructuring swap
  \<^verbatim>\<open>[newBoard[x][y], newBoard[newX][newY]] = [newBoard[newX][newY], newBoard[x][y]]\<close>
  on the copy of the grid: both cells are read, then \<^verbatim>\<open>newBoard[x][y]\<close> is written,
  then \<^verbatim>\<open>newBoard[newX][newY]\<close>.
\<close>

definition swap_cells :: "board \<Rightarrow> nat \<Rightarrow> nat \<Rightarrow> nat \<Rightarrow> nat \<Rightarrow> error + board" where
  "swap_cells b x y newX newY =
     (if length b \<le> newX \<or> length b \<le> x then Inl TypeError
      else if length (b ! newX) \<le> newY \<or> length (b ! x) \<le> y then Inl OffGrid
      else
        let t = b ! newX ! newY;
            z = b ! x ! y;
            b1 = b[x := (b ! x)[y := t]];
            b2 = b1[newX := (b1 ! newX)[newY := z]]
        in Inr b2)"

fun getNeighbors_loop ::
  "PuzzleState \<Rightarrow> nat \<Rightarrow> nat \<Rightarrow> move list \<Rightarrow> PuzzleState list \<Rightarrow> error + PuzzleState list" where
  "getNeighbors_loop s x y [] neighbors = Inr neighbors"
| "getNeighbors_loop s x y ((dx, dy) # rest) neighbors =
     (let newX = int x + dx; newY = int y + dy in
      if newX \<ge> 0 \<and> newX < 3 \<and> newY \<ge> 0 \<and> newY < 3 then
        (case swap_cells (board s) x y (nat newX) (nat newY) of
           Inl e \<Rightarrow> Inl e
         | Inr newBoard \<Rightarrow>
             getNeighbors_loop s x y rest
               (neighbors @ [new_PuzzleState newBoard (Some s) (Some (dx, dy))]))
      else getNeighbors_loop s x y rest neighbors)"

definition getNeighbors :: "PuzzleState \<Rightarrow> error + PuzzleState list" where
  "getNeighbors s =
     (case findZero s of
        Inl e \<Rightarrow> Inl e
      | Inr None \<Rightarrow> Inl TypeError
      | Inr (Some (x, y)) \<Rightarrow> getNeighbors_loop s x y moves [])"

subsection \<open>Heuristics\<close>

text \<open>
  \<^verbatim>\<open>state.board.flat().filter((tile, index) => tile !== 0 && tile !== index + 1).length\<close>
\<close>

definition hammingDistance :: "PuzzleState \<Rightarrow> error + int" where
  "hammingDistance state =
     Inr (int (length (filter (\<lambda>(index, tile). tile \<noteq> 0 \<and> tile \<noteq> int index + 1)
                         (enumerate 0 (flat (board state))))))"

text \<open>
  \<^verbatim>\<open>x | 0\<close> on an integral number: the low 32 bits, read as a signed integer.
  JavaScript's \<^verbatim>\<open>/\<close> followed by \<^verbatim>\<open>| 0\<close> truncates towards zero, and
  \<^verbatim>\<open>%\<close> takes the sign of the dividend: \<open>sdiv\<close> and \<open>smod\<close>.
\<close>

definition or0 :: "int \<Rightarrow> int" where
  "or0 k = signed_take_bit 31 k"

fun manhattan_loop :: "board \<Rightarrow> (nat \<times> nat) list \<Rightarrow> int \<Rightarrow> error + int" where
  "manhattan_loop b [] distance = Inr distance"
| "manhattan_loop b ((i, j) # rest) distance =
     (if length b \<le> i then Inl TypeError
      else if length (b ! i) \<le> j then Inl OffGrid
      else
        let tile = b ! i ! j in
        if tile \<noteq> 0 then
          let goalX = or0 ((tile - 1) sdiv 3);
              goalY = (tile - 1) smod 3
          in manhattan_loop b rest (distance + \<bar>goalX - int i\<bar> + \<bar>goalY - int j\<bar>)
        else manhattan_loop b rest distance)"

definition manhattanDistance :: "PuzzleState \<Rightarrow> error + int" where
  "manhattanDistance state = manhattan_loop (board state) cells 0"

subsection \<open>Path reconstruction\<close>

text \<open>
  \<^verbatim>\<open>while (state.parent) { path.unshift(state.move); state = state.parent; }\<close>
  The parent chain is part of the state value, so the loop is structural recursion.
  An entry of the path is the \<^verbatim>\<open>move\<close> field as it is: \<open>None\<close> would be
  \<^verbatim>\<open>null\<close>.
\<close>

fun reconstructPath_loop :: "PuzzleState \<Rightarrow> move option list \<Rightarrow> move option list" where
  "reconstructPath_loop (PuzzleState b None m gv hv fv) path = path"
| "reconstructPath_loop (PuzzleState b (Some p) m gv hv fv) path = reconstructPath_loop p (m # path)"

definition reconstructPath :: "PuzzleState \<Rightarrow> move option list" where
  "reconstructPath state = reconstructPath_loop state []"

subsection \<open>The search loops\<close>

text \<open>
  A search returns a path, \<^verbatim>\<open>null\<close> (\<open>Inr None\<close>), or throws. The state of
  each \<^verbatim>\<open>while\<close> loop is the frontier array and the explored set. One iteration
  either returns from the function or goes on with a new loop state; a loop that never
  returns has the value \<open>None\<close>.
\<close>

type_synonym result = "error + move option list option"

type_synonym config = "PuzzleState list \<times> string set"

datatype ('r, 'c) iter = Return 'r | Continue 'c

partial_function (option) run_loop :: "('c \<Rightarrow> ('r, 'c) iter) \<Rightarrow> 'c \<Rightarrow> 'r option" where
  "run_loop body c = (case body c of Return r \<Rightarrow> Some r | Continue c' \<Rightarrow> run_loop body c')"

declare run_loop.simps [code]

text \<open>The loop state at the head of the loop after \<open>n\<close> full iterations, if the loop gets there.\<close>

fun steps :: "('c \<Rightarrow> ('r, 'c) iter) \<Rightarrow> nat \<Rightarrow> 'c \<Rightarrow> 'c option" where
  "steps body 0 c = Some c"
| "steps body (Suc n) c = (case body c of Return r \<Rightarrow> None | Continue c' \<Rightarrow> steps body n c')"

text \<open>
  \<^verbatim>\<open>bfs\<close>. The \<^verbatim>\<open>for\<close> loop over the neighbours pushes an unexplored
  neighbour at the back of the frontier and adds its id to the explored set at once.
\<close>

fun bfs_visit :: "PuzzleState list \<Rightarrow> config \<Rightarrow> config" where
  "bfs_visit [] (frontier, explored) = (frontier, explored)"
| "bfs_visit (neighbor # rest) (frontier, explored) =
     (if getId neighbor \<notin> explored
      then bfs_visit rest (frontier @ [neighbor], insert (getId neighbor) explored)
      else bfs_visit rest (frontier, explored))"

fun bfs_body :: "config \<Rightarrow> (result, config) iter" where
  "bfs_body ([], explored) = Return (Inr None)"
| "bfs_body (state # frontier, explored) =
     (if isGoal state then Return (Inr (Some (reconstructPath state)))
      else
        let explored' = insert (getId state) explored in
        case getNeighbors state of
          Inl e \<Rightarrow> Return (Inl e)
        | Inr neighbors \<Rightarrow> Continue (bfs_visit neighbors (frontier, explored')))"

definition bfs :: "PuzzleState \<Rightarrow> result option" where
  "bfs initialState = run_loop bfs_body ([initialState], {})"

text \<open>
  \<^verbatim>\<open>findIndex\<close> returns \<open>-1\<close> when no element satisfies the predicate;
  \<^verbatim>\<open>splice(index, 0, x)\<close> with \<open>0 \<le> index \<le> length\<close> inserts \<open>x\<close> at
  position \<open>index\<close>.
\<close>

fun findIndex :: "('a \<Rightarrow> bool) \<Rightarrow> 'a list \<Rightarrow> int" where
  "findIndex P [] = - 1"
| "findIndex P (x # xs) =
     (if P x then 0 else (let i = findIndex P xs in if i = - 1 then - 1 else i + 1))"

definition splice_in :: "'a list \<Rightarrow> int \<Rightarrow> 'a \<Rightarrow> 'a list" where
  "splice_in xs index x = take (nat index) xs @ x # drop (nat index) xs"

text \<open>
  \<^verbatim>\<open>bestFirstSearch\<close>: an unexplored neighbour gets its \<^verbatim>\<open>h\<close> and is put
  before the first frontier state with a larger \<^verbatim>\<open>h\<close>. The heuristic is a
  parameter; it may throw.
\<close>

definition bestFirst_insert :: "PuzzleState \<Rightarrow> PuzzleState list \<Rightarrow> PuzzleState list" where
  "bestFirst_insert neighbor frontier =
     (let index = findIndex (\<lambda>s. h s > h neighbor) frontier in
      if index = - 1 then frontier @ [neighbor] else splice_in frontier index neighbor)"

fun bestFirst_visit ::
  "(PuzzleState \<Rightarrow> error + int) \<Rightarrow> string set \<Rightarrow> PuzzleState list \<Rightarrow> PuzzleState list
     \<Rightarrow> error + PuzzleState list" where
  "bestFirst_visit heuristic explored [] frontier = Inr frontier"
| "bestFirst_visit heuristic explored (neighbor # rest) frontier =
     (if getId neighbor \<notin> explored then
        (case heuristic neighbor of
           Inl e \<Rightarrow> Inl e
         | Inr v \<Rightarrow>
             bestFirst_visit heuristic explored rest (bestFirst_insert (set_h v neighbor) frontier))
      else bestFirst_visit heuristic explored rest frontier)"

fun bestFirst_body :: "(PuzzleState \<Rightarrow> error + int) \<Rightarrow> config \<Rightarrow> (result, config) iter" where
  "bestFirst_body heuristic ([], explored) = Return (Inr None)"
| "bestFirst_body heuristic (state # frontier, explored) =
     (if isGoal state then Return (Inr (Some (reconstructPath state)))
      else
        let explored' = insert (getId state) explored in
        case getNeighbors state of
          Inl e \<Rightarrow> Return (Inl e)
        | Inr neighbors \<Rightarrow>
            (case bestFirst_visit heuristic explored' neighbors frontier of
               Inl e \<Rightarrow> Return (Inl e)
             | Inr frontier' \<Rightarrow> Continue (frontier', explored')))"

definition bestFirstSearch :: "PuzzleState \<Rightarrow> (PuzzleState \<Rightarrow> error + int) \<Rightarrow> result option" where
  "bestFirstSearch initialState heuristic = run_loop (bestFirst_body heuristic) ([initialState], {})"

text \<open>
  \<^verbatim>\<open>aStar\<close>: the same loop, with \<^verbatim>\<open>neighbor.f = neighbor.g + neighbor.h\<close>
  as the ordering key.
\<close>

definition aStar_insert :: "PuzzleState \<Rightarrow> PuzzleState list \<Rightarrow> PuzzleState list" where
  "aStar_insert neighbor frontier =
     (let index = findIndex (\<lambda>s. f s > f neighbor) frontier in
      if index = - 1 then frontier @ [neighbor] else splice_in frontier index neighbor)"

fun aStar_visit ::
  "(PuzzleState \<Rightarrow> error + int) \<Rightarrow> string set \<Rightarrow> PuzzleState list \<Rightarrow> PuzzleState list
     \<Rightarrow> error + PuzzleState list" where
  "aStar_visit heuristic explored [] frontier = Inr frontier"
| "aStar_visit heuristic explored (neighbor # rest) frontier =
     (if getId neighbor \<notin> explored then
        (case heuristic neighbor of
           Inl e \<Rightarrow> Inl e
         | Inr v \<Rightarrow>
             aStar_visit heuristic explored rest
               (aStar_insert (set_f (g neighbor + v) (set_h v neighbor)) frontier))
      else aStar_visit heuristic explored rest frontier)"

fun aStar_body :: "(PuzzleState \<Rightarrow> error + int) \<Rightarrow> config \<Rightarrow> (result, config) iter" where
  "aStar_body heuristic ([], explored) = Return (Inr None)"
| "aStar_body heuristic (state # frontier, explored) =
     (if isGoal state then Return (Inr (Some (reconstructPath state)))
      else
        let explored' = insert (getId state) explored in
        case getNeighbors state of
          Inl e \<Rightarrow> Return (Inl e)
        | Inr neighbors \<Rightarrow>
            (case aStar_visit heuristic explored' neighbors frontier of
               Inl e \<Rightarrow> Return (Inl e)
             | Inr frontier' \<Rightarrow> Continue (frontier', explored')))"

definition aStar :: "PuzzleState \<Rightarrow> (PuzzleState \<Rightarrow> error + int) \<Rightarrow> result option" where
  "aStar initialState heuristic = run_loop (aStar_body heuristic) ([initialState], {})"

subsection \<open>Well-formed boards\<close>

definition grid3 :: "board \<Rightarrow> bool" where
  "grid3 b = (length b = 3 \<and> list_all (\<lambda>row. length row = 3) b)"

text \<open>A well-formed board: a 3x3 grid in which each of 0..8 appears exactly once.\<close>

definition wf_board :: "board \<Rightarrow> bool" where
  "wf_board b = (grid3 b \<and> distinct (flat b) \<and> set (flat b) = {0, 1, 2, 3, 4, 5, 6, 7, 8})"

definition goal_board :: board where
  "goal_board = [[1, 2, 3], [4, 5, 6], [7, 8, 0]]"

subsection \<open>Moves on boards, as the specification words them\<close>

text \<open>
  The blank is at row \<open>x\<close>, column \<open>y\<close>; a move \<open>(dx, dy)\<close> is in bounds when the
  cell \<open>(x + dx, y + dy)\<close> is on the grid; \<open>slide\<close> is the board with the blank and
  that cell exchanged.
\<close>

definition blank_at :: "board \<Rightarrow> nat \<Rightarrow> nat \<Rightarrow> bool" where
  "blank_at b x y = (x < 3 \<and> y < 3 \<and> b ! x ! y = 0)"

definition blank_pos :: "board \<Rightarrow> (nat \<times> nat) option" where
  "blank_pos b = find (\<lambda>(i, j). b ! i ! j = 0) cells"

definition in_bounds :: "nat \<Rightarrow> nat \<Rightarrow> move \<Rightarrow> bool" where
  "in_bounds x y m =
     (0 \<le> int x + fst m \<and> int x + fst m < 3 \<and> 0 \<le> int y + snd m \<and> int y + snd m < 3)"

definition slide :: "board \<Rightarrow> nat \<Rightarrow> nat \<Rightarrow> move \<Rightarrow> board" where
  "slide b x y m =
     (let x' = nat (int x + fst m); y' = nat (int y + snd m) in
      map (\<lambda>i. map (\<lambda>j. if (i, j) = (x, y) then b ! x' ! y'
                        else if (i, j) = (x', y') then b ! x ! y
                        else b ! i ! j) [0, 1, 2]) [0, 1, 2])"

definition child_of :: "PuzzleState \<Rightarrow> nat \<Rightarrow> nat \<Rightarrow> move \<Rightarrow> PuzzleState" where
  "child_of s x y m = PuzzleState (slide (board s) x y m) (Some s) (Some m) (g s + 1) 0 0"

text \<open>
  One blank slide: the move is one of the four cardinal deltas, the grid is 3x3, and the
  tile at (blank row + dx, blank column + dy) goes into the blank's cell.
\<close>

definition apply_move :: "board \<Rightarrow> move \<Rightarrow> board option" where
  "apply_move b m =
     (if grid3 b \<and> m \<in> set moves then
        (case blank_pos b of
           None \<Rightarrow> None
         | Some (x, y) \<Rightarrow> if in_bounds x y m then Some (slide b x y m) else None)
      else None)"

fun apply_moves :: "board \<Rightarrow> move list \<Rightarrow> board option" where
  "apply_moves b [] = Some b"
| "apply_moves b (m # ms) = (case apply_move b m of None \<Rightarrow> None | Some b' \<Rightarrow> apply_moves b' ms)"

text \<open>The state the request handler builds from the posted grid: \<^verbatim>\<open>new PuzzleState(puzzle)\<close>.\<close>

definition root :: "board \<Rightarrow> PuzzleState" where
  "root b = new_PuzzleState b None None"

subsection \<open>The heuristics, as the specification words them\<close>

definition goal_row :: "int \<Rightarrow> int" where
  "goal_row v = (v - 1) div 3"

definition goal_col :: "int \<Rightarrow> int" where
  "goal_col v = (v - 1) mod 3"

text \<open>The cells that hold a non-blank tile.\<close>

definition tile_cells :: "board \<Rightarrow> (nat \<times> nat) list" where
  "tile_cells b = filter (\<lambda>(i, j). b ! i ! j \<noteq> 0) cells"

text \<open>Number of non-blank tiles not on their goal cell.\<close>

definition spec_hamming :: "board \<Rightarrow> int" where
  "spec_hamming b =
     int (length (filter (\<lambda>(i, j). (int i, int j) \<noteq> (goal_row (b ! i ! j), goal_col (b ! i ! j)))
                    (tile_cells b)))"

text \<open>Sum over the non-blank tiles of row distance plus column distance to the goal cell.\<close>

definition spec_manhattan :: "board \<Rightarrow> int" where
  "spec_manhattan b =
     (\<Sum>(i, j) \<leftarrow> tile_cells b. \<bar>int i - goal_row (b ! i ! j)\<bar> + \<bar>int j - goal_col (b ! i ! j)\<bar>)"

subsection \<open>Auxiliary notions\<close>

text \<open>Every non-blank tile is on its goal cell.\<close>

definition placed :: "board \<Rightarrow> bool" where
  "placed b = (\<forall>i<3. \<forall>j<3. b ! i ! j \<noteq> 0 \<longrightarrow> b ! i ! j = int (3 * i + j) + 1)"


subsection \<open>Notions for reasoning about a search run\<close>

text \<open>
  A state is valid for the initial board \<open>b0\<close> when its parent chain ends in a parentless
  state over \<open>b0\<close> with \<open>g = 0\<close>, every link is one blank slide recorded in \<open>move\<close>, and
  \<open>g\<close> counts the links. The fields \<open>h\<close> and \<open>f\<close> are free.
\<close>

inductive valid_state :: "board \<Rightarrow> PuzzleState \<Rightarrow> bool" for b0 :: board where
  valid_root: "valid_state b0 (PuzzleState b0 None m 0 hv fv)"
| valid_child: "valid_state b0 p \<Longrightarrow> apply_move (board p) m = Some b
     \<Longrightarrow> valid_state b0 (PuzzleState b (Some p) (Some m) (g p + 1) hv fv)"

text \<open>Two states that differ at most in \<open>h\<close> and \<open>f\<close>.\<close>

definition same_core :: "PuzzleState \<Rightarrow> PuzzleState \<Rightarrow> bool" where
  "same_core s t = (board s = board t \<and> parent s = parent t \<and> move s = move t \<and> g s = g t)"

text \<open>The goal board can be reached from \<open>b\<close> by blank slides.\<close>

definition solvable :: "board \<Rightarrow> bool" where
  "solvable b = (\<exists>ms. apply_moves b ms = Some goal_board)"

text \<open>The identity string of a board.\<close>

definition board_id :: "board \<Rightarrow> string" where
  "board_id b = getId (root b)"

text \<open>
  What one iteration of any of the three loops does to the loop state, as far as
  soundness, completeness and termination are concerned: the head \<open>s\<close> of the frontier
  is not a goal and is expanded into \<open>ns\<close>; its id enters the explored set; what else
  enters the explored set are ids of successors that are put into the frontier; the rest
  of the frontier stays; every successor is explored or in the frontier afterwards; a new
  frontier state is a successor up to \<open>h\<close> and \<open>f\<close>.
\<close>

definition search_step :: "config \<Rightarrow> config \<Rightarrow> bool" where
  "search_step c c' =
     (\<exists>s rest ex fr' ex' ns.
        c = (s # rest, ex) \<and> c' = (fr', ex') \<and> \<not> isGoal s \<and> getNeighbors s = Inr ns
        \<and> insert (getId s) ex \<subseteq> ex'
        \<and> ex' \<subseteq> insert (getId s) ex \<union> getId ` set ns
        \<and> ex' \<subseteq> insert (getId s) ex \<union> getId ` set fr'
        \<and> set rest \<subseteq> set fr'
        \<and> (\<forall>n \<in> set ns. getId n \<in> ex' \<union> getId ` set fr')
        \<and> (\<forall>t \<in> set fr'. t \<in> set rest \<or> (\<exists>n \<in> set ns. same_core t n))
        \<and> (ex' = insert (getId s) ex \<longrightarrow>
             length (filter (\<lambda>t. getId t \<in> ex') fr') = length (filter (\<lambda>t. getId t \<in> ex') rest)))"

text \<open>A heuristic that does not throw on well-formed boards.\<close>

definition total_heuristic :: "(PuzzleState \<Rightarrow> error + int) \<Rightarrow> bool" where
  "total_heuristic heuristic = (\<forall>s. wf_board (board s) \<longrightarrow> (\<exists>v. heuristic s = Inr v))"

text \<open>
  The invariant of the three loops, for the initial board \<open>b0\<close>: the frontier holds valid
  states; the initial board is explored or in the frontier; a well-formed board whose id
  is explored either still has a state in the frontier or is not the goal and has all
  its successors explored or in the frontier.
\<close>

definition search_inv :: "board \<Rightarrow> config \<Rightarrow> bool" where
  "search_inv b0 c =
     (case c of (fr, ex) \<Rightarrow>
        (\<forall>s \<in> set fr. valid_state b0 s)
        \<and> board_id b0 \<in> ex \<union> getId ` set fr
        \<and> (\<forall>b. wf_board b \<and> board_id b \<in> ex \<longrightarrow>
              (\<exists>s \<in> set fr. board s = b)
              \<or> (b \<noteq> goal_board
                  \<and> (\<forall>m b'. apply_move b m = Some b' \<longrightarrow> board_id b' \<in> ex \<union> getId ` set fr))))"

text \<open>How an iteration may return: with \<^verbatim>\<open>null\<close> on an empty frontier, or with the path of a goal state at the head of the frontier.\<close>

definition search_return :: "config \<Rightarrow> result \<Rightarrow> bool" where
  "search_return c r =
     (case fst c of [] \<Rightarrow> r = Inr None
      | s # rest \<Rightarrow> isGoal s \<and> r = Inr (Some (reconstructPath s)))"

text \<open>The ids of all well-formed boards, and the measure that decreases with every iteration.\<close>

definition all_ids :: "string set" where
  "all_ids = board_id ` {b. wf_board b}"

definition search_measure :: "config \<Rightarrow> nat \<times> nat" where
  "search_measure c =
     (case c of (fr, ex) \<Rightarrow> (card (all_ids - ex), length (filter (\<lambda>t. getId t \<in> ex) fr)))"

subsection \<open>Notions for the optimality of \<^verbatim>\<open>bfs\<close> and \<^verbatim>\<open>aStar\<close>\<close>

text \<open>A valid state whose depth \<open>g\<close> is the least number of blank slides from \<open>b0\<close> to its board.\<close>

definition opt_state :: "board \<Rightarrow> PuzzleState \<Rightarrow> bool" where
  "opt_state b0 s =
     (valid_state b0 s \<and> (\<forall>ms. apply_moves b0 ms = Some (board s) \<longrightarrow> g s \<le> int (length ms)))"

text \<open>
  The invariant of the \<^verbatim>\<open>bfs\<close> loop: the search invariant; every frontier state has
  optimal depth; the frontier is sorted by depth and spans at most two depths; the ids of
  all frontier states but possibly the first are explored.
\<close>

definition bfs_inv :: "board \<Rightarrow> config \<Rightarrow> bool" where
  "bfs_inv b0 c =
     (search_inv b0 c
      \<and> (\<forall>t \<in> set (fst c). opt_state b0 t)
      \<and> sorted (map g (fst c))
      \<and> (\<forall>t \<in> set (fst c). g t \<le> g (hd (fst c)) + 1)
      \<and> getId ` set (tl (fst c)) \<subseteq> snd c)"

text \<open>A path of least length from \<open>b0\<close> to \<open>b\<close>.\<close>

definition shortest_path :: "board \<Rightarrow> move list \<Rightarrow> board \<Rightarrow> bool" where
  "shortest_path b0 ms b =
     (apply_moves b0 ms = Some b \<and> (\<forall>ms'. apply_moves b0 ms' = Some b \<longrightarrow> length ms \<le> length ms'))"

text \<open>
  The heuristic \<open>heuristic\<close> computes \<open>hf\<close> of the board, without throwing, on well-formed
  boards; \<open>hf\<close> is non-negative and drops by at most one with a blank slide.
\<close>

definition consistent_heuristic :: "(PuzzleState \<Rightarrow> error + int) \<Rightarrow> (board \<Rightarrow> int) \<Rightarrow> bool" where
  "consistent_heuristic heuristic hf =
     ((\<forall>s. wf_board (board s) \<longrightarrow> heuristic s = Inr (hf (board s)))
      \<and> (\<forall>b. wf_board b \<longrightarrow> 0 \<le> hf b)
      \<and> (\<forall>b m b'. wf_board b \<and> apply_move b m = Some b' \<longrightarrow> hf b \<le> 1 + hf b'))"

text \<open>
  The invariant of the \<^verbatim>\<open>aStar\<close> loop for a consistent heuristic: frontier states
  are valid and scored with \<open>f = g + hf\<close> (the initial state is unscored); the frontier
  is sorted by \<open>f\<close>; the initial board is explored or in the frontier at depth 0; an
  explored board is not the goal, and each of its successors is explored or has a
  frontier state at most one deeper than any path to the explored board.
\<close>

definition astar_inv :: "(board \<Rightarrow> int) \<Rightarrow> board \<Rightarrow> config \<Rightarrow> bool" where
  "astar_inv hf b0 c =
     (case c of (fr, ex) \<Rightarrow>
        (\<forall>t \<in> set fr. valid_state b0 t)
        \<and> (\<forall>t \<in> set fr. f t = g t + hf (board t) \<or> (g t = 0 \<and> f t = 0))
        \<and> sorted (map f fr)
        \<and> (board_id b0 \<in> ex \<or> (\<exists>t \<in> set fr. board t = b0 \<and> g t = 0))
        \<and> (\<forall>b. wf_board b \<and> board_id b \<in> ex \<longrightarrow>
              b \<noteq> goal_board
              \<and> (\<forall>m b'. apply_move b m = Some b' \<longrightarrow>
                    board_id b' \<in> ex
                    \<or> (\<exists>t \<in> set fr. board t = b'
                          \<and> (\<forall>ms. apply_moves b0 ms = Some b \<longrightarrow> g t \<le> int (length ms) + 1)))))"

text \<open>
  The state \<open>t\<close> is a successor \<open>n\<close> made by \<^verbatim>\<open>getNeighbors\<close> whose field
  \<open>h\<close> has been set to the value of \<open>heuristic\<close> on \<open>n\<close>, the board, parent, move and
  depth being those of \<open>n\<close>.
\<close>

definition scored_by :: "(PuzzleState \<Rightarrow> error + int) \<Rightarrow> PuzzleState \<Rightarrow> bool" where
  "scored_by heuristic t =
     (\<exists>p ns n. getNeighbors p = Inr ns \<and> n \<in> set ns \<and> same_core t n \<and> heuristic n = Inr (h t))"

section \<open>Properties\<close>

subsection \<open>Grids and cells\<close>

lemma grid3_cases:
  assumes "grid3 b"
  obtains t0 t1 t2 t3 t4 t5 t6 t7 t8 where "b = [[t0,t1,t2],[t3,t4,t5],[t6,t7,t8]]"
proof -
  have l3: "\<And>xs::'a list. length xs = 3 \<Longrightarrow> \<exists>a b c. xs = [a,b,c]"
    by (metis length_0_conv length_Suc_conv numeral_3_eq_3)
  from assms obtain r0 r1 r2 where b: "b = [r0, r1, r2]" 
    unfolding grid3_def using l3 by blast
  with assms have "length r0 = 3" "length r1 = 3" "length r2 = 3" by (simp_all add: grid3_def)
  then show ?thesis using l3 b that by metis
qed

lemma lt3: "(n::nat) < 3 \<longleftrightarrow> n = 0 \<or> n = 1 \<or> n = 2" by auto

lemma cells_set: "set cells = {(i, j). i < 3 \<and> j < 3}"
  by (auto simp: cells_def lt3)

lemma grid3_cell_in_flat:
  assumes "grid3 b" "i < 3" "j < 3"
  shows "i < length b" "j < length (b ! i)" "b ! i ! j \<in> set (flat b)"
proof -
  from assms obtain t0 t1 t2 t3 t4 t5 t6 t7 t8 where b: "b = [[t0,t1,t2],[t3,t4,t5],[t6,t7,t8]]"
    using grid3_cases by blast
  from assms(2,3) show "i < length b" "j < length (b ! i)" "b ! i ! j \<in> set (flat b)"
    by (auto simp: b lt3 flat_def)
qed

lemma wf_tile_range:
  assumes "wf_board b" "i < 3" "j < 3"
  shows "0 \<le> b ! i ! j" "b ! i ! j \<le> 8"
proof -
  from assms have "b ! i ! j \<in> {0, 1, 2, 3, 4, 5, 6, 7, 8}"
    using grid3_cell_in_flat(3)[of b i j] by (simp add: wf_board_def)
  then show "0 \<le> b ! i ! j" "b ! i ! j \<le> 8" by auto
qed

lemma tile_terms:
  assumes "1 \<le> v" "v \<le> 8"
  shows "or0 ((v - 1) sdiv 3) = goal_row v" "(v - 1) smod 3 = goal_col v"
proof -
  from assms have "v = 1 \<or> v = 2 \<or> v = 3 \<or> v = 4 \<or> v = 5 \<or> v = 6 \<or> v = 7 \<or> v = 8" by arith
  then show "or0 ((v - 1) sdiv 3) = goal_row v" "(v - 1) smod 3 = goal_col v"
    by (auto simp: or0_def goal_row_def goal_col_def signed_divide_int_def signed_modulo_int_def)
qed

lemma goal_cell_iff:
  assumes "j < 3"
  shows "(int i, int j) = (goal_row v, goal_col v) \<longleftrightarrow> v = int (3 * i + j) + 1"
  using assms unfolding goal_row_def goal_col_def by auto

lemma enumerate_flat:
  assumes "grid3 b"
  shows "enumerate 0 (flat b) = map (\<lambda>(i, j). (3 * i + j, b ! i ! j)) cells"
proof -
  from assms obtain t0 t1 t2 t3 t4 t5 t6 t7 t8 where b: "b = [[t0,t1,t2],[t3,t4,t5],[t6,t7,t8]]"
    using grid3_cases by blast
  show ?thesis by (simp add: b flat_def cells_def)
qed

lemma hamming_spec:
  assumes g: "grid3 (board s)"
  shows "hammingDistance s = Inr (spec_hamming (board s))"
proof -
  have "filter (\<lambda>(i, j). board s ! i ! j \<noteq> 0 \<and> board s ! i ! j \<noteq> int (3 * i + j) + 1) cells
      = filter (\<lambda>(i, j). board s ! i ! j \<noteq> 0 \<and>
           (int i, int j) \<noteq> (goal_row (board s ! i ! j), goal_col (board s ! i ! j))) cells"
    by (rule filter_cong) (auto simp: cells_set goal_row_def goal_col_def)
  then show ?thesis
    unfolding hammingDistance_def spec_hamming_def tile_cells_def enumerate_flat[OF g]
    by (simp add: filter_map o_def case_prod_unfold conj_commute)
qed

lemma manhattan_loop_spec:
  assumes "\<forall>(i, j) \<in> set cs. i < length b \<and> j < length (b ! i) \<and> 0 \<le> b ! i ! j \<and> b ! i ! j \<le> 8"
  shows "manhattan_loop b cs d =
     Inr (d + (\<Sum>(i, j) \<leftarrow> filter (\<lambda>(i, j). b ! i ! j \<noteq> 0) cs.
                 \<bar>int i - goal_row (b ! i ! j)\<bar> + \<bar>int j - goal_col (b ! i ! j)\<bar>))"
  using assms
proof (induction cs arbitrary: d)
  case Nil
  then show ?case by simp
next
  case (Cons c cs)
  obtain i j where c: "c = (i, j)" by (cases c)
  from Cons.prems c have r: "i < length b" "j < length (b ! i)" "0 \<le> b ! i ! j" "b ! i ! j \<le> 8"
    by auto
  from Cons.prems have rest: "\<forall>(i, j) \<in> set cs. i < length b \<and> j < length (b ! i) \<and> 0 \<le> b ! i ! j \<and> b ! i ! j \<le> 8"
    by auto
  show ?case
  proof (cases "b ! i ! j = 0")
    case True
    then show ?thesis using r Cons.IH[OF rest] by (simp add: c)
  next
    case False
    with r have "1 \<le> b ! i ! j" by simp
    from tile_terms[OF this r(4)] False r Cons.IH[OF rest]
    show ?thesis by (simp add: c Let_def abs_minus_commute)
  qed
qed

lemma manhattan_spec:
  assumes wf: "wf_board (board s)"
  shows "manhattanDistance s = Inr (spec_manhattan (board s))"
proof -
  have "\<forall>(i, j) \<in> set cells. i < length (board s) \<and> j < length (board s ! i)
          \<and> 0 \<le> board s ! i ! j \<and> board s ! i ! j \<le> 8"
    using wf grid3_cell_in_flat[of "board s"] wf_tile_range[of "board s"]
    by (auto simp: cells_set wf_board_def)
  from manhattan_loop_spec[OF this, of 0] show ?thesis
    by (simp add: manhattanDistance_def spec_manhattan_def tile_cells_def)
qed

subsection \<open>The heuristics vanish on the goal board only\<close>

lemma all_lt3: "(\<forall>i<3. P i) = (P 0 \<and> P 1 \<and> P (2::nat))"
  by (auto simp: lt3)

lemma tile_cells_iff: "(i, j) \<in> set (tile_cells b) \<longleftrightarrow> i < 3 \<and> j < 3 \<and> b ! i ! j \<noteq> 0"
  by (auto simp: tile_cells_def cells_set)

lemma placed_goal:
  assumes "wf_board b"
  shows "placed b \<longleftrightarrow> b = goal_board"
proof
  assume p: "placed b"
  from assms obtain t0 t1 t2 t3 t4 t5 t6 t7 t8 where b: "b = [[t0,t1,t2],[t3,t4,t5],[t6,t7,t8]]"
    using grid3_cases unfolding wf_board_def by blast
  from assms b have d: "distinct [t0,t1,t2,t3,t4,t5,t6,t7,t8]" by (simp add: wf_board_def flat_def)
  from wf_tile_range(2)[OF assms, of 2 2] b have "t8 \<le> 8" by simp
  with p b have "t8 = 0" by (auto simp: placed_def all_lt3)
  with d p b show "b = goal_board"
    by (auto simp: placed_def all_lt3 goal_board_def)
next
  assume "b = goal_board"
  then show "placed b" by (simp add: placed_def all_lt3 goal_board_def)
qed

lemma spec_hamming_zero: "spec_hamming b = 0 \<longleftrightarrow> placed b"
proof -
  have "spec_hamming b = 0 \<longleftrightarrow>
     (\<forall>i j. (i, j) \<in> set (tile_cells b) \<longrightarrow> (int i, int j) = (goal_row (b ! i ! j), goal_col (b ! i ! j)))"
    unfolding spec_hamming_def by (auto simp: filter_empty_conv)
  also have "\<dots> \<longleftrightarrow> placed b"
    unfolding placed_def tile_cells_iff using goal_cell_iff by blast
  finally show ?thesis .
qed

lemma spec_manhattan_nonneg: "0 \<le> spec_manhattan b"
  unfolding spec_manhattan_def by (rule sum_list_nonneg) auto

lemma sum_list_zero_iff:
  fixes xs :: "int list"
  assumes "\<forall>x \<in> set xs. 0 \<le> x"
  shows "sum_list xs = 0 \<longleftrightarrow> (\<forall>x \<in> set xs. x = 0)"
  using assms
proof (induction xs)
  case Nil then show ?case by simp
next
  case (Cons a xs)
  then have "0 \<le> a" "0 \<le> sum_list xs" by (auto intro: sum_list_nonneg)
  with Cons show ?case by auto
qed

lemma abs_sum_zero: "(\<bar>a - c\<bar> + \<bar>b - d\<bar> = 0) = ((a, b) = (c, d))" for a b c d :: int
  by auto

lemma spec_manhattan_zero: "spec_manhattan b = 0 \<longleftrightarrow> placed b"
proof -
  have "spec_manhattan b = 0 \<longleftrightarrow>
     (\<forall>i j. (i, j) \<in> set (tile_cells b) \<longrightarrow>
         \<bar>int i - goal_row (b ! i ! j)\<bar> + \<bar>int j - goal_col (b ! i ! j)\<bar> = 0)"
    unfolding spec_manhattan_def by (subst sum_list_zero_iff) auto
  also have "\<dots> \<longleftrightarrow> placed b"
    unfolding placed_def tile_cells_iff abs_sum_zero using goal_cell_iff by blast
  finally show ?thesis .
qed

subsection \<open>Identities of well-formed boards\<close>

lemma digit_char_inj:
  assumes "a < 10" "b < 10" "digit_char a = digit_char b"
  shows "a = b"
proof -
  from assms(3) have "of_char (char_of (48 + a) :: char) = (of_char (char_of (48 + b) :: char) :: nat)"
    by (simp add: digit_char_def)
  with assms(1,2) show ?thesis by (simp add: take_bit_eq_mod)
qed

lemma digit_char_not_comma: "d < 10 \<Longrightarrow> digit_char d \<noteq> CHR '',''"
proof
  assume d: "d < 10" and "digit_char d = CHR '',''"
  then have "of_char (char_of (48 + d) :: char) = (of_char CHR '','' :: nat)"
    by (simp add: digit_char_def)
  with d show False by (simp add: take_bit_eq_mod)
qed

lemma number_toString_tile:
  assumes "0 \<le> v" "v \<le> 8"
  shows "number_toString v = [digit_char (nat v)]"
  using assms by (simp add: number_toString_def digits.simps)

lemma join_Cons: "join sep (x # xs) = (if xs = [] then x else x @ sep @ join sep xs)"
  by (cases xs) simp_all

lemma join_tiles_inj:
  assumes "\<forall>v \<in> set xs. 0 \<le> v \<and> v \<le> 8" "\<forall>v \<in> set ys. 0 \<le> v \<and> v \<le> 8"
    and "join '','' (map number_toString xs) = join '','' (map number_toString ys)"
  shows "xs = ys"
  using assms
proof (induction xs arbitrary: ys)
  case Nil
  then show ?case by (cases ys) (auto simp: join_Cons number_toString_tile split: if_splits)
next
  case (Cons x xs)
  show ?case
  proof (cases ys)
    case Nil
    with Cons.prems show ?thesis by (auto simp: join_Cons number_toString_tile split: if_splits)
  next
    case (Cons y ys')
    from Cons.prems(1) have x: "0 \<le> x" "x \<le> 8" by auto
    from Cons.prems(2) Cons have y: "0 \<le> y" "y \<le> 8" by auto
    from Cons.prems(3) Cons x y
    have e: "digit_char (nat x) # (if xs = [] then [] else CHR '','' # join '','' (map number_toString xs))
           = digit_char (nat y) # (if ys' = [] then [] else CHR '','' # join '','' (map number_toString ys'))"
      by (auto simp: join_Cons number_toString_tile split: if_splits)
    then have dc: "digit_char (nat x) = digit_char (nat y)" by simp
    from x y have "nat x < 10" "nat y < 10" by arith+
    from digit_char_inj[OF this dc] x y have xy: "x = y" by arith
    from e have r: "(xs = [] \<longleftrightarrow> ys' = [])"
      and j: "xs \<noteq> [] \<Longrightarrow> join '','' (map number_toString xs) = join '','' (map number_toString ys')"
      by (auto split: if_splits)
    have "xs = ys'"
    proof (cases "xs = []")
      case True with r show ?thesis by simp
    next
      case False
      from Cons.IH[OF _ _ j[OF False]] Cons.prems(1,2) Cons show ?thesis by simp
    qed
    with xy Cons show ?thesis by simp
  qed
qed

lemma grid3_flat_inj:
  assumes "grid3 a" "grid3 b" "flat a = flat b"
  shows "a = b"
proof -
  from assms(1) obtain t0 t1 t2 t3 t4 t5 t6 t7 t8 where a: "a = [[t0,t1,t2],[t3,t4,t5],[t6,t7,t8]]"
    using grid3_cases by blast
  from assms(2) obtain u0 u1 u2 u3 u4 u5 u6 u7 u8 where b: "b = [[u0,u1,u2],[u3,u4,u5],[u6,u7,u8]]"
    using grid3_cases by blast
  from assms(3) show ?thesis by (simp add: a b flat_def)
qed

lemma wf_flat_range: "wf_board b \<Longrightarrow> \<forall>v \<in> set (flat b). 0 \<le> v \<and> v \<le> 8"
  by (auto simp: wf_board_def)

lemma getId_inj:
  assumes "wf_board (board s)" "wf_board (board t)"
  shows "getId s = getId t \<longleftrightarrow> board s = board t"
proof
  assume "getId s = getId t"
  then have "flat (board s) = flat (board t)"
    unfolding getId_def using join_tiles_inj wf_flat_range assms by blast
  with assms show "board s = board t" using grid3_flat_inj by (simp add: wf_board_def)
next
  assume "board s = board t" then show "getId s = getId t" by (simp add: getId_def)
qed

lemma wf_goal_board: "wf_board goal_board"
  by (auto simp: wf_board_def grid3_def goal_board_def flat_def)

lemma goal_board_id: "join '','' (map number_toString (flat goal_board)) = ''1,2,3,4,5,6,7,8,0''"
  by code_simp

lemma getId_goal: "board s = goal_board \<Longrightarrow> getId s = ''1,2,3,4,5,6,7,8,0''"
  by (simp add: getId_def goal_board_id)

lemma isGoal_iff:
  assumes "wf_board (board s)"
  shows "isGoal s \<longleftrightarrow> board s = goal_board"
proof -
  have "isGoal s \<longleftrightarrow> getId s = getId (root goal_board)"
    by (simp add: isGoal_def getId_goal root_def new_PuzzleState_def)
  also have "\<dots> \<longleftrightarrow> board s = goal_board"
    using getId_inj[OF assms, of "root goal_board"] wf_goal_board
    by (simp add: root_def new_PuzzleState_def)
  finally show ?thesis .
qed

subsection \<open>Successor generation on well-formed boards\<close>

lemma wf_board_cases:
  assumes "wf_board b"
  obtains t0 t1 t2 t3 t4 t5 t6 t7 t8 where "b = [[t0,t1,t2],[t3,t4,t5],[t6,t7,t8]]"
    and "distinct [t0,t1,t2,t3,t4,t5,t6,t7,t8]"
    and "{t0,t1,t2,t3,t4,t5,t6,t7,t8} = {0,1,2,3,4,5,6,7,8}"
proof -
  from assms obtain t0 t1 t2 t3 t4 t5 t6 t7 t8 where b: "b = [[t0,t1,t2],[t3,t4,t5],[t6,t7,t8]]"
    using grid3_cases unfolding wf_board_def by blast
  with assms have "distinct [t0,t1,t2,t3,t4,t5,t6,t7,t8]"
    "{t0,t1,t2,t3,t4,t5,t6,t7,t8} = {0,1,2,3,4,5,6,7,8}"
    by (simp_all add: wf_board_def flat_def)
  with b that show ?thesis by blast
qed

lemma blank_cases:
  assumes "blank_at b x y"
  obtains "x = 0 \<and> y = 0" | "x = 0 \<and> y = 1" | "x = 0 \<and> y = 2"
    | "x = 1 \<and> y = 0" | "x = 1 \<and> y = 1" | "x = 1 \<and> y = 2"
    | "x = 2 \<and> y = 0" | "x = 2 \<and> y = 1" | "x = 2 \<and> y = 2"
  using assms unfolding blank_at_def lt3 by auto

lemma wf_blank_exists:
  assumes "wf_board b"
  shows "\<exists>x y. blank_at b x y"
proof -
  from assms obtain t0 t1 t2 t3 t4 t5 t6 t7 t8 where b: "b = [[t0,t1,t2],[t3,t4,t5],[t6,t7,t8]]"
    and s: "{t0,t1,t2,t3,t4,t5,t6,t7,t8} = {0,1,2,3,4,5,6,7,8}"
    by (rule wf_board_cases)
  from s have "0 \<in> {t0,t1,t2,t3,t4,t5,t6,t7,t8}" by simp
  then consider "t0 = 0" | "t1 = 0" | "t2 = 0" | "t3 = 0" | "t4 = 0" | "t5 = 0" | "t6 = 0" | "t7 = 0" | "t8 = 0"
    by auto
  then show ?thesis
  proof cases
    case 1 then have "blank_at b 0 0" by (simp add: b blank_at_def) then show ?thesis by blast
  next
    case 2 then have "blank_at b 0 1" by (simp add: b blank_at_def) then show ?thesis by blast
  next
    case 3 then have "blank_at b 0 2" by (simp add: b blank_at_def) then show ?thesis by blast
  next
    case 4 then have "blank_at b 1 0" by (simp add: b blank_at_def) then show ?thesis by blast
  next
    case 5 then have "blank_at b 1 1" by (simp add: b blank_at_def) then show ?thesis by blast
  next
    case 6 then have "blank_at b 1 2" by (simp add: b blank_at_def) then show ?thesis by blast
  next
    case 7 then have "blank_at b 2 0" by (simp add: b blank_at_def) then show ?thesis by blast
  next
    case 8 then have "blank_at b 2 1" by (simp add: b blank_at_def) then show ?thesis by blast
  next
    case 9 then have "blank_at b 2 2" by (simp add: b blank_at_def) then show ?thesis by blast
  qed
qed

lemma wf_blank_pos:
  assumes wf: "wf_board b" and bl: "blank_at b x y"
  shows "blank_pos b = Some (x, y)"
proof -
  from wf obtain t0 t1 t2 t3 t4 t5 t6 t7 t8 where b: "b = [[t0,t1,t2],[t3,t4,t5],[t6,t7,t8]]"
    and d: "distinct [t0,t1,t2,t3,t4,t5,t6,t7,t8]"
    by (rule wf_board_cases)
  from bl show ?thesis using bl b d
    by (cases rule: blank_cases) (simp_all add: blank_at_def blank_pos_def cells_def)
qed

lemma getNeighbors_wf:
  assumes wf: "wf_board (board s)" and bl: "blank_at (board s) x y"
  shows "getNeighbors s = Inr (map (child_of s x y) (filter (in_bounds x y) moves))"
proof -
  from wf obtain t0 t1 t2 t3 t4 t5 t6 t7 t8 where b: "board s = [[t0,t1,t2],[t3,t4,t5],[t6,t7,t8]]"
    and d: "distinct [t0,t1,t2,t3,t4,t5,t6,t7,t8]"
    by (rule wf_board_cases)
  from bl show ?thesis using bl b d
    by (cases rule: blank_cases)
      (simp_all add: blank_at_def getNeighbors_def findZero_def cells_def moves_def in_bounds_def
        swap_cells_def new_PuzzleState_def child_of_def slide_def Let_def)
qed

lemma slide_wf:
  assumes wf: "wf_board b" and bl: "blank_at b x y" and m: "m \<in> set moves" and ib: "in_bounds x y m"
  shows "wf_board (slide b x y m)"
proof -
  from wf obtain t0 t1 t2 t3 t4 t5 t6 t7 t8 where b: "b = [[t0,t1,t2],[t3,t4,t5],[t6,t7,t8]]"
    and d: "distinct [t0,t1,t2,t3,t4,t5,t6,t7,t8]"
    and s: "{t0,t1,t2,t3,t4,t5,t6,t7,t8} = {0,1,2,3,4,5,6,7,8}"
    by (rule wf_board_cases)
  from m consider "m = (0, 1)" | "m = (1, 0)" | "m = (0, -1)" | "m = (-1, 0)"
    by (auto simp: moves_def)
  then show ?thesis
  proof cases
    case 1
    from bl show ?thesis using bl ib d s[symmetric] 1
      by (cases rule: blank_cases)
        (auto simp: b blank_at_def in_bounds_def slide_def wf_board_def grid3_def flat_def Let_def)
  next
    case 2
    from bl show ?thesis using bl ib d s[symmetric] 2
      by (cases rule: blank_cases)
        (auto simp: b blank_at_def in_bounds_def slide_def wf_board_def grid3_def flat_def Let_def)
  next
    case 3
    from bl show ?thesis using bl ib d s[symmetric] 3
      by (cases rule: blank_cases)
        (auto simp: b blank_at_def in_bounds_def slide_def wf_board_def grid3_def flat_def Let_def)
  next
    case 4
    from bl show ?thesis using bl ib d s[symmetric] 4
      by (cases rule: blank_cases)
        (auto simp: b blank_at_def in_bounds_def slide_def wf_board_def grid3_def flat_def Let_def)
  qed
qed

lemma wf_blank_unique:
  assumes "wf_board b" "blank_at b x y" "blank_at b x' y'"
  shows "x' = x \<and> y' = y"
  using wf_blank_pos[OF assms(1,2)] wf_blank_pos[OF assms(1,3)] by simp

lemma apply_move_wf:
  assumes wf: "wf_board b" and bl: "blank_at b x y"
  shows "apply_move b m = (if m \<in> set moves \<and> in_bounds x y m then Some (slide b x y m) else None)"
  using wf wf_blank_pos[OF wf bl] by (simp add: apply_move_def wf_board_def)

lemma apply_move_preserves_wf:
  assumes "wf_board b" "apply_move b m = Some b'"
  shows "wf_board b'"
proof -
  from assms(1) obtain x y where bl: "blank_at b x y" using wf_blank_exists by blast
  from assms(2) have "m \<in> set moves" "in_bounds x y m" "b' = slide b x y m"
    unfolding apply_move_wf[OF assms(1) bl] by (simp_all split: if_splits)
  with slide_wf[OF assms(1) bl] show ?thesis by simp
qed

lemma count_in_bounds:
  assumes "x < 3" "y < 3"
  shows "length (filter (in_bounds x y) moves) = (if x = 1 \<and> y = 1 then 4 else if x \<noteq> 1 \<and> y \<noteq> 1 then 2 else 3)"
  using assms unfolding lt3 by (auto simp: in_bounds_def moves_def)



lemma getNeighbors_apply_move:
  assumes wf: "wf_board (board s)" and gn: "getNeighbors s = Inr ns" and n: "n \<in> set ns"
  shows "\<exists>m. apply_move (board s) m = Some (board n) \<and> move n = Some m \<and> parent n = Some s
           \<and> g n = g s + 1 \<and> h n = 0 \<and> f n = 0"
proof -
  from wf obtain x y where bl: "blank_at (board s) x y" using wf_blank_exists by blast
  from gn n obtain m where "m \<in> set moves" "in_bounds x y m" "n = child_of s x y m"
    unfolding getNeighbors_wf[OF wf bl] by auto
  then have "apply_move (board s) m = Some (board n) \<and> move n = Some m \<and> parent n = Some s
           \<and> g n = g s + 1 \<and> h n = 0 \<and> f n = 0"
    by (simp add: apply_move_wf[OF wf bl] child_of_def)
  then show ?thesis ..
qed

lemma getNeighbors_complete:
  assumes wf: "wf_board (board s)"
  shows "\<exists>ns. getNeighbors s = Inr ns \<and>
           (\<forall>m b'. apply_move (board s) m = Some b' \<longrightarrow> (\<exists>n \<in> set ns. board n = b' \<and> move n = Some m))"
proof -
  from wf obtain x y where bl: "blank_at (board s) x y" using wf_blank_exists by blast
  show ?thesis unfolding getNeighbors_wf[OF wf bl] apply_move_wf[OF wf bl]
    by (auto simp: child_of_def split: if_splits)
qed

subsection \<open>Claims about successor generation and the heuristics\<close>

text \<open>
  C7. On a well-formed board the blank has exactly one position \<open>(x, y)\<close>, and
  \<^verbatim>\<open>getNeighbors\<close> returns one child per in-bounds cardinal move of the blank, in
  the order of the move table: 4 children for the centre, 2 for a corner, 3 for an edge.
  Each child is \<open>child_of s x y m\<close>: the board with the blank and the target cell
  exchanged, parent the input state, move the delta, \<open>g\<close> one more than the parent's,
  \<open>h\<close> and \<open>f\<close> zero.
\<close>

theorem getNeighbors_children:
  assumes "wf_board (board s)"
  shows "\<exists>x y. blank_at (board s) x y
           \<and> (\<forall>x' y'. blank_at (board s) x' y' \<longrightarrow> x' = x \<and> y' = y)
           \<and> getNeighbors s = Inr (map (child_of s x y) (filter (in_bounds x y) moves))
           \<and> length (filter (in_bounds x y) moves)
               = (if x = 1 \<and> y = 1 then 4 else if x \<noteq> 1 \<and> y \<noteq> 1 then 2 else 3)"
proof -
  from assms obtain x y where bl: "blank_at (board s) x y" using wf_blank_exists by blast
  then have "x < 3" "y < 3" by (simp_all add: blank_at_def)
  from count_in_bounds[OF this] getNeighbors_wf[OF assms bl] wf_blank_unique[OF assms bl] bl
  show ?thesis by blast
qed

theorem getNeighbors_children_witness:
  "wf_board (board (root [[1, 2, 3], [4, 0, 6], [7, 8, 5]]))
   \<and> (\<exists>x y. blank_at (board (root [[1, 2, 3], [4, 0, 6], [7, 8, 5]])) x y
        \<and> (\<forall>x' y'. blank_at (board (root [[1, 2, 3], [4, 0, 6], [7, 8, 5]])) x' y' \<longrightarrow> x' = x \<and> y' = y)
        \<and> getNeighbors (root [[1, 2, 3], [4, 0, 6], [7, 8, 5]])
            = Inr (map (child_of (root [[1, 2, 3], [4, 0, 6], [7, 8, 5]]) x y) (filter (in_bounds x y) moves))
        \<and> length (filter (in_bounds x y) moves)
            = (if x = 1 \<and> y = 1 then 4 else if x \<noteq> 1 \<and> y \<noteq> 1 then 2 else 3))"
proof -
  have w: "wf_board (board (root [[1, 2, 3], [4, 0, 6], [7, 8, 5]]))"
    by (auto simp: root_def new_PuzzleState_def wf_board_def grid3_def flat_def)
  from w getNeighbors_children[OF w] show ?thesis by blast
qed

text \<open>
  C9. On a well-formed board \<^verbatim>\<open>hammingDistance\<close> is the number of non-blank tiles
  that are not on their goal cell, \<^verbatim>\<open>manhattanDistance\<close> is the sum over the
  non-blank tiles of the row distance plus the column distance to the goal cell
  \<open>((v - 1) div 3, (v - 1) mod 3)\<close>, and both are non-negative.
\<close>

theorem heuristics_meet_spec:
  assumes "wf_board (board s)"
  shows "hammingDistance s = Inr (spec_hamming (board s))
       \<and> manhattanDistance s = Inr (spec_manhattan (board s))
       \<and> 0 \<le> spec_hamming (board s) \<and> 0 \<le> spec_manhattan (board s)"
proof -
  from assms have "grid3 (board s)" by (simp add: wf_board_def)
  from hamming_spec[OF this] manhattan_spec[OF assms] spec_manhattan_nonneg
  show ?thesis by (simp add: spec_hamming_def)
qed

theorem heuristics_meet_spec_witness:
  "wf_board (board (root [[8, 2, 3], [4, 0, 6], [7, 1, 5]]))
   \<and> hammingDistance (root [[8, 2, 3], [4, 0, 6], [7, 1, 5]]) = Inr 3
   \<and> manhattanDistance (root [[8, 2, 3], [4, 0, 6], [7, 1, 5]]) = Inr 8
   \<and> spec_hamming [[8, 2, 3], [4, 0, 6], [7, 1, 5]] = 3
   \<and> spec_manhattan [[8, 2, 3], [4, 0, 6], [7, 1, 5]] = 8"
proof -
  have w: "wf_board (board (root [[8, 2, 3], [4, 0, 6], [7, 1, 5]]))"
    by (auto simp: root_def new_PuzzleState_def wf_board_def grid3_def flat_def)
  have b: "board (root [[8, 2, 3], [4, 0, 6], [7, 1, 5]]) = [[8, 2, 3], [4, 0, 6], [7, 1, 5]]"
    by (simp add: root_def new_PuzzleState_def)
  have "spec_hamming [[8, 2, 3], [4, 0, 6], [7, 1, 5]] = 3" by code_simp
  moreover have "spec_manhattan [[8, 2, 3], [4, 0, 6], [7, 1, 5]] = 8" by code_simp
  ultimately show ?thesis using w heuristics_meet_spec[OF w] unfolding b by simp
qed



subsection \<open>Loops\<close>

lemma steps_Return: "body c = Return r \<Longrightarrow> steps body (Suc n) c = None"
  by simp

lemma steps_Suc_end:
  "steps body (Suc n) c =
     (case steps body n c of None \<Rightarrow> None
      | Some c' \<Rightarrow> (case body c' of Return r \<Rightarrow> None | Continue c'' \<Rightarrow> Some c''))"
proof (induction n arbitrary: c)
  case 0
  then show ?case by (simp split: iter.splits)
next
  case (Suc n)
  show ?case
  proof (cases "body c")
    case (Return r) then show ?thesis by simp
  next
    case (Continue c1)
    with Suc.IH[of c1] show ?thesis by simp
  qed
qed

lemma steps_invariant:
  assumes "I c0" and "\<And>c c'. I c \<Longrightarrow> body c = Continue c' \<Longrightarrow> I c'"
    and "steps body n c0 = Some c"
  shows "I c"
  using assms(1,3)
proof (induction n arbitrary: c0)
  case 0 then show ?case by simp
next
  case (Suc n)
  from Suc.prems(2) obtain c1 where c1: "body c0 = Continue c1" "steps body n c1 = Some c"
    by (auto split: iter.splits)
  from assms(2)[OF Suc.prems(1) c1(1)] Suc.IH c1(2) show ?case by blast
qed

lemma run_loop_from_steps:
  assumes "steps body n c = Some c'" "body c' = Return r"
  shows "run_loop body c = Some r"
  using assms
proof (induction n arbitrary: c)
  case 0 then show ?case by (subst run_loop.simps) simp
next
  case (Suc n)
  from Suc.prems(1) obtain c1 where c1: "body c = Continue c1" "steps body n c1 = Some c'"
    by (auto split: iter.splits)
  from Suc.IH[OF c1(2) Suc.prems(2)] c1(1) show ?case by (subst run_loop.simps) simp
qed

lemma run_loop_to_steps:
  assumes "run_loop body c = Some r"
  shows "\<exists>n c'. steps body n c = Some c' \<and> body c' = Return r"
  using assms
proof (induction rule: run_loop.raw_induct[rotated 1, consumes 1])
  case (1 run body c r)
  show ?case
  proof (cases "body c")
    case (Return r')
    with 1(2) have "r' = r" by simp
    with Return have "steps body 0 c = Some c \<and> body c = Return r" by simp
    then show ?thesis by blast
  next
    case (Continue c1)
    with 1(2) have "run body c1 = Some r" by simp
    from 1(1)[OF this] obtain n c' where "steps body n c1 = Some c'" "body c' = Return r" by blast
    with Continue have "steps body (Suc n) c = Some c' \<and> body c' = Return r" by simp
    then show ?thesis by blast
  qed
qed

lemma run_loop_invariant:
  assumes "run_loop body c0 = Some r" and "I c0"
    and "\<And>c c'. I c \<Longrightarrow> body c = Continue c' \<Longrightarrow> I c'"
  shows "\<exists>c. I c \<and> body c = Return r"
proof -
  from run_loop_to_steps[OF assms(1)] obtain n c where c: "steps body n c0 = Some c" "body c = Return r"
    by blast
  have "I c"
  proof (rule steps_invariant[where I = I and body = body and ?c0.0 = c0 and n = n])
    show "I c0" by fact
    show "\<And>c c'. I c \<Longrightarrow> body c = Continue c' \<Longrightarrow> I c'" by (rule assms(3))
    show "steps body n c0 = Some c" by fact
  qed
  with c(2) show ?thesis by blast
qed

lemma run_loop_terminates:
  assumes "wf R" and "I c0"
    and "\<And>c c'. I c \<Longrightarrow> body c = Continue c' \<Longrightarrow> I c' \<and> (c', c) \<in> R"
  shows "\<exists>r. run_loop body c0 = Some r"
  using assms(1,2)
proof (induction c0 rule: wf_induct_rule)
  case (less c)
  show ?case
  proof (cases "body c")
    case (Return r)
    then have "run_loop body c = Some r" by (subst run_loop.simps) simp
    then show ?thesis by blast
  next
    case (Continue c1)
    from assms(3)[OF less.prems Continue] less.IH obtain r where "run_loop body c1 = Some r" by blast
    with Continue have "run_loop body c = Some r" by (subst run_loop.simps) simp
    then show ?thesis by blast
  qed
qed

subsection \<open>Valid states and their paths\<close>

lemma apply_moves_append:
  "apply_moves b (ms @ ms') = (case apply_moves b ms of None \<Rightarrow> None | Some b' \<Rightarrow> apply_moves b' ms')"
  by (induction ms arbitrary: b) (auto split: option.splits)

lemma apply_moves_wf:
  assumes "wf_board b" "apply_moves b ms = Some b'"
  shows "wf_board b'"
  using assms
proof (induction ms arbitrary: b)
  case Nil then show ?case by simp
next
  case (Cons m ms)
  from Cons.prems(2) obtain b1 where b1: "apply_move b m = Some b1" "apply_moves b1 ms = Some b'"
    by (auto split: option.splits)
  from Cons.IH[OF apply_move_preserves_wf[OF Cons.prems(1) b1(1)] b1(2)] show ?case .
qed

lemma valid_state_path:
  assumes "valid_state b0 s"
  shows "\<exists>ms. (\<forall>acc. reconstructPath_loop s acc = map Some ms @ acc)
            \<and> apply_moves b0 ms = Some (board s) \<and> g s = int (length ms)"
  using assms
proof (induction rule: valid_state.induct)
  case (valid_root m hv fv)
  have "(\<forall>acc. reconstructPath_loop (PuzzleState b0 None m 0 hv fv) acc = map Some [] @ acc)
      \<and> apply_moves b0 [] = Some (board (PuzzleState b0 None m 0 hv fv))
      \<and> g (PuzzleState b0 None m 0 hv fv) = int (length ([] :: move list))" by simp
  then show ?case by blast
next
  case (valid_child p m b hv fv)
  then obtain ms where ms: "\<forall>acc. reconstructPath_loop p acc = map Some ms @ acc"
    "apply_moves b0 ms = Some (board p)" "g p = int (length ms)" by blast
  have "(\<forall>acc. reconstructPath_loop (PuzzleState b (Some p) (Some m) (g p + 1) hv fv) acc
            = map Some (ms @ [m]) @ acc)
      \<and> apply_moves b0 (ms @ [m]) = Some (board (PuzzleState b (Some p) (Some m) (g p + 1) hv fv))
      \<and> g (PuzzleState b (Some p) (Some m) (g p + 1) hv fv) = int (length (ms @ [m]))"
    using ms valid_child.hyps(2) by (simp add: apply_moves_append)
  then show ?case by blast
qed

lemma valid_state_wf:
  assumes "wf_board b0" "valid_state b0 s"
  shows "wf_board (board s)"
  using valid_state_path[OF assms(2)] apply_moves_wf[OF assms(1)] by blast

lemma valid_state_root: "valid_state b0 (root b0)"
  by (simp add: root_def new_PuzzleState_def valid_root)

lemma valid_state_same_core:
  assumes "valid_state b0 s" "same_core t s"
  shows "valid_state b0 t"
  using assms
proof (cases rule: valid_state.cases)
  case (valid_root m hv fv)
  with assms(2) have "t = PuzzleState b0 None m 0 (h t) (f t)"
    by (cases t) (simp add: same_core_def)
  then show ?thesis using valid_state.valid_root by metis
next
  case (valid_child p m b hv fv)
  with assms(2) have "t = PuzzleState b (Some p) (Some m) (g p + 1) (h t) (f t)"
    by (cases t) (simp add: same_core_def)
  then show ?thesis using valid_state.valid_child[OF valid_child(2,3)] by metis
qed

lemma valid_state_neighbor:
  assumes wf: "wf_board b0" and v: "valid_state b0 s" and gn: "getNeighbors s = Inr ns" and n: "n \<in> set ns"
  shows "valid_state b0 n"
proof -
  have ws: "wf_board (board s)" using valid_state_wf[OF wf v] .
  from getNeighbors_apply_move[OF ws gn n] obtain m where
    m: "apply_move (board s) m = Some (board n)" "move n = Some m" "parent n = Some s" "g n = g s + 1"
    by blast
  then have "n = PuzzleState (board n) (Some s) (Some m) (g s + 1) (h n) (f n)" by (cases n) simp
  then show ?thesis using valid_child[OF v m(1)] by metis
qed

lemma same_core_set_h [simp]: "same_core (set_h v s) s"
  by (simp add: same_core_def set_h_def)

lemma same_core_set_f [simp]: "same_core (set_f v s) s"
  by (simp add: same_core_def set_f_def)

lemma same_core_getId: "same_core s t \<Longrightarrow> getId s = getId t"
  by (simp add: same_core_def getId_def)

lemma getId_board_id: "getId s = board_id (board s)"
  by (simp add: board_id_def getId_def root_def new_PuzzleState_def)

lemma board_id_inj:
  assumes "wf_board a" "wf_board b"
  shows "board_id a = board_id b \<longleftrightarrow> a = b"
  using getId_inj[of "root a" "root b"] assms
  by (simp add: board_id_def root_def new_PuzzleState_def)

subsection \<open>The three loop bodies as search steps\<close>

lemma bfs_visit_props:
  assumes "bfs_visit ns (fr, ex) = (fr', ex')"
  shows "ex \<subseteq> ex' \<and> ex' \<subseteq> ex \<union> getId ` set ns \<and> ex' \<subseteq> ex \<union> getId ` set fr'
       \<and> set fr \<subseteq> set fr' \<and> (\<forall>n \<in> set ns. getId n \<in> ex') \<and> set fr' \<subseteq> set fr \<union> set ns
       \<and> (ex' = ex \<longrightarrow> fr' = fr)"
  using assms
proof (induction ns arbitrary: fr ex)
  case Nil
  then show ?case by simp
next
  case (Cons n ns)
  show ?case
  proof (cases "getId n \<in> ex")
    case True
    with Cons.prems have "bfs_visit ns (fr, ex) = (fr', ex')" by simp
    from Cons.IH[OF this] True show ?thesis by auto
  next
    case False
    with Cons.prems have "bfs_visit ns (fr @ [n], insert (getId n) ex) = (fr', ex')" by simp
    from Cons.IH[OF this] False show ?thesis by auto
  qed
qed

lemma bfs_body_step:
  assumes "bfs_body c = Continue c'"
  shows "search_step c c'"
proof -
  obtain fr ex where c: "c = (fr, ex)" by (cases c)
  obtain fr' ex' where c': "c' = (fr', ex')" by (cases c')
  from assms c obtain s rest where fr: "fr = s # rest" by (cases fr) auto
  from assms c fr have ng: "\<not> isGoal s" by (auto split: if_splits)
  with assms c fr obtain ns where ns: "getNeighbors s = Inr ns"
    and v: "bfs_visit ns (rest, insert (getId s) ex) = (fr', ex')"
    by (auto simp: c' Let_def split: sum.splits)
  from bfs_visit_props[OF v] have
    "insert (getId s) ex \<subseteq> ex'" "ex' \<subseteq> insert (getId s) ex \<union> getId ` set ns"
    "ex' \<subseteq> insert (getId s) ex \<union> getId ` set fr'" "set rest \<subseteq> set fr'"
    "\<forall>n \<in> set ns. getId n \<in> ex' \<union> getId ` set fr'"
    "\<forall>t \<in> set fr'. t \<in> set rest \<or> (\<exists>n \<in> set ns. same_core t n)"
    "ex' = insert (getId s) ex \<longrightarrow>
       length (filter (\<lambda>t. getId t \<in> ex') fr') = length (filter (\<lambda>t. getId t \<in> ex') rest)"
    by (auto simp: same_core_def)
  with c c' fr ng ns show ?thesis unfolding search_step_def by blast
qed

lemma set_splice_in: "set (splice_in xs i x) = insert x (set xs)"
proof -
  have "set (take (nat i) xs) \<union> set (drop (nat i) xs) = set xs"
    by (metis append_take_drop_id set_append)
  then show ?thesis by (auto simp: splice_in_def)
qed

lemma filter_splice_in:
  "length (filter P (splice_in xs i x)) = length (filter P xs) + (if P x then 1 else 0)"
proof -
  have "length (filter P (take (nat i) xs)) + length (filter P (drop (nat i) xs)) = length (filter P xs)"
    by (metis append_take_drop_id filter_append length_append)
  then show ?thesis by (auto simp: splice_in_def)
qed

lemma set_bestFirst_insert: "set (bestFirst_insert n fr) = insert n (set fr)"
  by (simp add: bestFirst_insert_def Let_def set_splice_in)

lemma filter_bestFirst_insert:
  "length (filter P (bestFirst_insert n fr)) = length (filter P fr) + (if P n then 1 else 0)"
  by (simp add: bestFirst_insert_def Let_def filter_splice_in)

lemma set_aStar_insert: "set (aStar_insert n fr) = insert n (set fr)"
  by (simp add: aStar_insert_def Let_def set_splice_in)

lemma filter_aStar_insert:
  "length (filter P (aStar_insert n fr)) = length (filter P fr) + (if P n then 1 else 0)"
  by (simp add: aStar_insert_def Let_def filter_splice_in)

lemma bestFirst_visit_props:
  assumes "bestFirst_visit heuristic ex ns fr = Inr fr'"
  shows "set fr \<subseteq> set fr' \<and> (\<forall>n \<in> set ns. getId n \<in> ex \<union> getId ` set fr')
       \<and> (\<forall>t \<in> set fr'. t \<in> set fr \<or> (\<exists>n \<in> set ns. same_core t n))
       \<and> length (filter (\<lambda>t. getId t \<in> ex) fr') = length (filter (\<lambda>t. getId t \<in> ex) fr)"
  using assms
proof (induction ns arbitrary: fr)
  case Nil
  then show ?case by simp
next
  case (Cons n ns)
  show ?case
  proof (cases "getId n \<in> ex")
    case True
    with Cons.prems have "bestFirst_visit heuristic ex ns fr = Inr fr'" by simp
    from Cons.IH[OF this] True show ?thesis by auto
  next
    case False
    with Cons.prems obtain v where v: "heuristic n = Inr v"
      and r: "bestFirst_visit heuristic ex ns (bestFirst_insert (set_h v n) fr) = Inr fr'"
      by (auto split: sum.splits)
    have i: "getId (set_h v n) = getId n" by (rule same_core_getId) simp
    from Cons.IH[OF r] have
      1: "set (bestFirst_insert (set_h v n) fr) \<subseteq> set fr'"
      and 2: "\<forall>n \<in> set ns. getId n \<in> ex \<union> getId ` set fr'"
      and 3: "\<forall>t \<in> set fr'. t \<in> set (bestFirst_insert (set_h v n) fr) \<or> (\<exists>n \<in> set ns. same_core t n)"
      and 4: "length (filter (\<lambda>t. getId t \<in> ex) fr')
            = length (filter (\<lambda>t. getId t \<in> ex) (bestFirst_insert (set_h v n) fr))"
      by blast+
    from 1 have a: "set fr \<subseteq> set fr'" and a': "set_h v n \<in> set fr'"
      by (auto simp: set_bestFirst_insert)
    from a' i have "getId n \<in> getId ` set fr'" by (metis imageI)
    with 2 have b: "\<forall>n' \<in> set (n # ns). getId n' \<in> ex \<union> getId ` set fr'" by simp
    from 3 have c: "\<forall>t \<in> set fr'. t \<in> set fr \<or> (\<exists>n' \<in> set (n # ns). same_core t n')"
      by (auto simp: set_bestFirst_insert)
    from 4 False i have d: "length (filter (\<lambda>t. getId t \<in> ex) fr') = length (filter (\<lambda>t. getId t \<in> ex) fr)"
      by (simp add: filter_bestFirst_insert)
    from a b c d show ?thesis by blast
  qed
qed

lemma aStar_visit_props:
  assumes "aStar_visit heuristic ex ns fr = Inr fr'"
  shows "set fr \<subseteq> set fr' \<and> (\<forall>n \<in> set ns. getId n \<in> ex \<union> getId ` set fr')
       \<and> (\<forall>t \<in> set fr'. t \<in> set fr \<or> (\<exists>n \<in> set ns. same_core t n))
       \<and> length (filter (\<lambda>t. getId t \<in> ex) fr') = length (filter (\<lambda>t. getId t \<in> ex) fr)"
  using assms
proof (induction ns arbitrary: fr)
  case Nil
  then show ?case by simp
next
  case (Cons n ns)
  show ?case
  proof (cases "getId n \<in> ex")
    case True
    with Cons.prems have "aStar_visit heuristic ex ns fr = Inr fr'" by simp
    from Cons.IH[OF this] True show ?thesis by auto
  next
    case False
    define n' where "n' = set_f (g n + projr (heuristic n)) (set_h (projr (heuristic n)) n)"
    from False Cons.prems have r: "aStar_visit heuristic ex ns (aStar_insert n' fr) = Inr fr'"
      by (auto simp: n'_def split: sum.splits)
    have sc: "same_core n' n" by (simp add: n'_def same_core_def set_f_def set_h_def)
    then have i: "getId n' = getId n" by (rule same_core_getId)
    from Cons.IH[OF r] have
      1: "set (aStar_insert n' fr) \<subseteq> set fr'"
      and 2: "\<forall>n \<in> set ns. getId n \<in> ex \<union> getId ` set fr'"
      and 3: "\<forall>t \<in> set fr'. t \<in> set (aStar_insert n' fr) \<or> (\<exists>n \<in> set ns. same_core t n)"
      and 4: "length (filter (\<lambda>t. getId t \<in> ex) fr')
            = length (filter (\<lambda>t. getId t \<in> ex) (aStar_insert n' fr))"
      by blast+
    from 1 have a: "set fr \<subseteq> set fr'" and a': "n' \<in> set fr'"
      by (auto simp: set_aStar_insert)
    from a' i have "getId n \<in> getId ` set fr'" by (metis imageI)
    with 2 have b: "\<forall>k \<in> set (n # ns). getId k \<in> ex \<union> getId ` set fr'" by simp
    from 3 sc have c: "\<forall>t \<in> set fr'. t \<in> set fr \<or> (\<exists>k \<in> set (n # ns). same_core t k)"
      by (auto simp: set_aStar_insert)
    from 4 False i have d: "length (filter (\<lambda>t. getId t \<in> ex) fr') = length (filter (\<lambda>t. getId t \<in> ex) fr)"
      by (simp add: filter_aStar_insert)
    from a b c d show ?thesis by blast
  qed
qed

lemma informed_step:
  assumes ng: "\<not> isGoal s" and ns: "getNeighbors s = Inr ns"
    and p: "set rest \<subseteq> set fr' \<and> (\<forall>n \<in> set ns. getId n \<in> insert (getId s) ex \<union> getId ` set fr')
       \<and> (\<forall>t \<in> set fr'. t \<in> set rest \<or> (\<exists>n \<in> set ns. same_core t n))
       \<and> length (filter (\<lambda>t. getId t \<in> insert (getId s) ex) fr')
           = length (filter (\<lambda>t. getId t \<in> insert (getId s) ex) rest)"
  shows "search_step (s # rest, ex) (fr', insert (getId s) ex)"
  unfolding search_step_def using ng ns p by blast

lemma bestFirst_body_step:
  assumes "bestFirst_body heuristic c = Continue c'"
  shows "search_step c c'"
proof -
  obtain fr ex where c: "c = (fr, ex)" by (cases c)
  obtain fr' ex' where c': "c' = (fr', ex')" by (cases c')
  from assms c obtain s rest where fr: "fr = s # rest" by (cases fr) auto
  from assms c fr have ng: "\<not> isGoal s" by (auto split: if_splits)
  with assms c fr obtain ns where ns: "getNeighbors s = Inr ns"
    and v: "bestFirst_visit heuristic (insert (getId s) ex) ns rest = Inr fr'"
    and e: "ex' = insert (getId s) ex"
    by (auto simp: c' Let_def split: sum.splits)
  from informed_step[OF ng ns bestFirst_visit_props[OF v]] show ?thesis by (simp add: c c' fr e)
qed

lemma aStar_body_step:
  assumes "aStar_body heuristic c = Continue c'"
  shows "search_step c c'"
proof -
  obtain fr ex where c: "c = (fr, ex)" by (cases c)
  obtain fr' ex' where c': "c' = (fr', ex')" by (cases c')
  from assms c obtain s rest where fr: "fr = s # rest" by (cases fr) auto
  from assms c fr have ng: "\<not> isGoal s" by (auto split: if_splits)
  with assms c fr obtain ns where ns: "getNeighbors s = Inr ns"
    and v: "aStar_visit heuristic (insert (getId s) ex) ns rest = Inr fr'"
    and e: "ex' = insert (getId s) ex"
    by (auto simp: c' Let_def split: sum.splits)
  from informed_step[OF ng ns aStar_visit_props[OF v]] show ?thesis by (simp add: c c' fr e)
qed

subsection \<open>The search invariant\<close>

lemma board_root [simp]: "board (root b) = b"
  by (simp add: root_def new_PuzzleState_def)

lemma search_inv_init: "search_inv b0 ([root b0], {})"
  by (simp add: search_inv_def valid_state_root getId_board_id)

lemma search_stepE:
  assumes "search_step c c'"
  obtains s rest ex fr' ex' ns where
    "c = (s # rest, ex)" "c' = (fr', ex')" "\<not> isGoal s" "getNeighbors s = Inr ns"
    "insert (getId s) ex \<subseteq> ex'"
    "ex' \<subseteq> insert (getId s) ex \<union> getId ` set ns"
    "ex' \<subseteq> insert (getId s) ex \<union> getId ` set fr'"
    "set rest \<subseteq> set fr'"
    "\<forall>n \<in> set ns. getId n \<in> ex' \<union> getId ` set fr'"
    "\<forall>t \<in> set fr'. t \<in> set rest \<or> (\<exists>n \<in> set ns. same_core t n)"
    "ex' = insert (getId s) ex \<longrightarrow>
       length (filter (\<lambda>t. getId t \<in> ex') fr') = length (filter (\<lambda>t. getId t \<in> ex') rest)"
  using assms unfolding search_step_def
  apply (elim exE conjE)
  apply (rule that)
            apply assumption+
  done

lemma search_inv_step:
  assumes wf: "wf_board b0" and inv: "search_inv b0 c" and st: "search_step c c'"
  shows "search_inv b0 c'"
proof -
  from st obtain s rest ex fr' ex' ns where
    c: "c = (s # rest, ex)" and c': "c' = (fr', ex')" and ng: "\<not> isGoal s"
    and ns: "getNeighbors s = Inr ns"
    and a: "insert (getId s) ex \<subseteq> ex'"
    and b: "ex' \<subseteq> insert (getId s) ex \<union> getId ` set ns"
    and b': "ex' \<subseteq> insert (getId s) ex \<union> getId ` set fr'"
    and cc: "set rest \<subseteq> set fr'"
    and d: "\<forall>n \<in> set ns. getId n \<in> ex' \<union> getId ` set fr'"
    and e: "\<forall>t \<in> set fr'. t \<in> set rest \<or> (\<exists>n \<in> set ns. same_core t n)"
    and f: "ex' = insert (getId s) ex \<longrightarrow>
             length (filter (\<lambda>t. getId t \<in> ex') fr') = length (filter (\<lambda>t. getId t \<in> ex') rest)"
    by (rule search_stepE)
  from inv have I: "(\<forall>t \<in> set (s # rest). valid_state b0 t)
        \<and> board_id b0 \<in> ex \<union> getId ` set (s # rest)
        \<and> (\<forall>b. wf_board b \<and> board_id b \<in> ex \<longrightarrow>
              (\<exists>t \<in> set (s # rest). board t = b)
              \<or> (b \<noteq> goal_board
                  \<and> (\<forall>m b'. apply_move b m = Some b' \<longrightarrow> board_id b' \<in> ex \<union> getId ` set (s # rest))))"
    unfolding search_inv_def c prod.case .
  from I have v: "\<forall>t \<in> set (s # rest). valid_state b0 t" by (rule conjunct1)
  from I have r: "board_id b0 \<in> ex \<union> getId ` set (s # rest)" by blast
  from I have cl: "\<And>b. wf_board b \<Longrightarrow> board_id b \<in> ex \<Longrightarrow>
              (\<exists>t \<in> set (s # rest). board t = b)
              \<or> (b \<noteq> goal_board
                  \<and> (\<forall>m b'. apply_move b m = Some b' \<longrightarrow> board_id b' \<in> ex \<union> getId ` set (s # rest)))"
    by blast
  from v have vs: "valid_state b0 s" by simp
  have ws: "wf_board (board s)" using valid_state_wf[OF wf vs] .
  have v': "\<forall>t \<in> set fr'. valid_state b0 t"
  proof
    fix t assume "t \<in> set fr'"
    with e consider "t \<in> set rest" | n where "n \<in> set ns" "same_core t n" by blast
    then show "valid_state b0 t"
    proof cases
      case 1 with v show ?thesis by simp
    next
      case 2
      from valid_state_same_core[OF valid_state_neighbor[OF wf vs ns 2(1)] 2(2)] show ?thesis .
    qed
  qed
  have old_seen: "\<And>x. x \<in> ex \<union> getId ` set (s # rest) \<Longrightarrow> x \<in> ex' \<union> getId ` set fr'"
    using a cc by auto
  have r': "board_id b0 \<in> ex' \<union> getId ` set fr'" using old_seen[OF r] .
  have expanded: "board s \<noteq> goal_board
      \<and> (\<forall>m b'. apply_move (board s) m = Some b' \<longrightarrow> board_id b' \<in> ex' \<union> getId ` set fr')"
  proof (intro conjI allI impI)
    from ng isGoal_iff[OF ws] show "board s \<noteq> goal_board" by simp
  next
    fix m b' assume "apply_move (board s) m = Some b'"
    with getNeighbors_complete[OF ws] ns obtain n where n: "n \<in> set ns" "board n = b'"
      by (metis sum.inject(2))
    from d n(1) have "getId n \<in> ex' \<union> getId ` set fr'" by blast
    with n(2) show "board_id b' \<in> ex' \<union> getId ` set fr'" by (simp add: getId_board_id)
  qed
  have cl': "(\<exists>t \<in> set fr'. board t = b)
              \<or> (b \<noteq> goal_board
                  \<and> (\<forall>m b'. apply_move b m = Some b' \<longrightarrow> board_id b' \<in> ex' \<union> getId ` set fr'))"
    if wb: "wf_board b" and ib: "board_id b \<in> ex'" for b
  proof -
    from ib b' consider "board_id b \<in> getId ` set fr'" | "board_id b = getId s" | "board_id b \<in> ex"
      by blast
    then show ?thesis
    proof cases
      case 1
      then obtain t where t: "t \<in> set fr'" "getId t = board_id b" by auto
      with v' have "wf_board (board t)" using valid_state_wf[OF wf] by blast
      with t(2) wb have "board t = b" using board_id_inj by (simp add: getId_board_id)
      with t(1) show ?thesis by blast
    next
      case 2
      with ws wb have "b = board s" using board_id_inj by (simp add: getId_board_id)
      with expanded show ?thesis by simp
    next
      case 3
      from cl[OF wb 3] show ?thesis
      proof
        assume "\<exists>t \<in> set (s # rest). board t = b"
        then consider "board s = b" | t where "t \<in> set rest" "board t = b" by auto
        then show ?thesis
        proof cases
          case 1 with expanded show ?thesis by simp
        next
          case 2 with cc show ?thesis by blast
        qed
      next
        assume "b \<noteq> goal_board
          \<and> (\<forall>m b'. apply_move b m = Some b' \<longrightarrow> board_id b' \<in> ex \<union> getId ` set (s # rest))"
        with old_seen show ?thesis by blast
      qed
    qed
  qed
  from v' r' cl' show ?thesis unfolding search_inv_def c' prod.case by blast
qed

lemma search_inv_closed:
  assumes wf: "wf_board b0" and inv: "search_inv b0 ([], ex)"
    and b: "wf_board b" "board_id b \<in> ex" and ms: "apply_moves b ms = Some b'"
  shows "board_id b' \<in> ex"
  using b ms
proof (induction ms arbitrary: b)
  case Nil then show ?case by simp
next
  case (Cons m ms)
  from Cons.prems(3) obtain b1 where b1: "apply_move b m = Some b1" "apply_moves b1 ms = Some b'"
    by (auto split: option.splits)
  from inv have "\<forall>b. wf_board b \<and> board_id b \<in> ex \<longrightarrow> (\<forall>m b'. apply_move b m = Some b' \<longrightarrow> board_id b' \<in> ex)"
    unfolding search_inv_def by (simp del: split_paired_All)
  with Cons.prems(1,2) b1(1) have "board_id b1 \<in> ex" by blast
  from Cons.IH[OF apply_move_preserves_wf[OF Cons.prems(1) b1(1)] this b1(2)] show ?case .
qed

lemma search_inv_exhausted:
  assumes wf: "wf_board b0" and inv: "search_inv b0 ([], ex)"
  shows "\<not> solvable b0"
proof
  assume "solvable b0"
  then obtain ms where ms: "apply_moves b0 ms = Some goal_board" by (auto simp: solvable_def)
  from inv have "board_id b0 \<in> ex" unfolding search_inv_def by simp
  from search_inv_closed[OF wf inv wf this ms] have "board_id goal_board \<in> ex" .
  with inv wf_goal_board show False unfolding search_inv_def by (auto simp del: split_paired_All)
qed

lemma search_inv_goal:
  assumes wf: "wf_board b0" and v: "valid_state b0 s" and g: "isGoal s"
  shows "\<exists>ms. reconstructPath s = map Some ms \<and> apply_moves b0 ms = Some goal_board
            \<and> g s = int (length ms)"
proof -
  from valid_state_path[OF v] obtain ms where
    ms: "\<forall>acc. reconstructPath_loop s acc = map Some ms @ acc" "apply_moves b0 ms = Some (board s)"
      "PuzzleState.g s = int (length ms)"
    by blast
  from g isGoal_iff[OF valid_state_wf[OF wf v]] have "board s = goal_board" by simp
  with ms show ?thesis by (auto simp: reconstructPath_def)
qed

subsection \<open>Termination measure\<close>

lemma finite_wf_boards: "finite {b. wf_board b}"
proof -
  let ?T = "{0, 1, 2, 3, 4, 5, 6, 7, 8 :: int}"
  let ?R = "{r. set r \<subseteq> ?T \<and> length r = 3}"
  have fR: "finite ?R" by (rule finite_lists_length_eq) simp
  have "{b. wf_board b} \<subseteq> {b. set b \<subseteq> ?R \<and> length b = 3}"
  proof
    fix b assume "b \<in> {b. wf_board b}"
    then have g: "grid3 b" and s: "set (flat b) = ?T" by (simp_all add: wf_board_def)
    from s have "\<forall>r \<in> set b. set r \<subseteq> ?T" unfolding flat_def by auto
    with g show "b \<in> {b. set b \<subseteq> ?R \<and> length b = 3}"
      by (auto simp: grid3_def list_all_iff)
  qed
  moreover have "finite {b. set b \<subseteq> ?R \<and> length b = 3}" by (rule finite_lists_length_eq[OF fR])
  ultimately show ?thesis by (rule finite_subset)
qed

lemma finite_all_ids: "finite all_ids"
  unfolding all_ids_def using finite_wf_boards by simp

lemma valid_state_id: "wf_board b0 \<Longrightarrow> valid_state b0 s \<Longrightarrow> getId s \<in> all_ids"
  unfolding all_ids_def getId_board_id using valid_state_wf by blast

lemma search_step_decreases:
  assumes wf: "wf_board b0" and inv: "search_inv b0 c" and st: "search_step c c'"
  shows "(search_measure c', search_measure c) \<in> less_than <*lex*> less_than"
proof -
  from st obtain s rest ex fr' ex' ns where
    c: "c = (s # rest, ex)" and c': "c' = (fr', ex')" and ng: "\<not> isGoal s"
    and ns: "getNeighbors s = Inr ns"
    and a: "insert (getId s) ex \<subseteq> ex'"
    and b: "ex' \<subseteq> insert (getId s) ex \<union> getId ` set ns"
    and b': "ex' \<subseteq> insert (getId s) ex \<union> getId ` set fr'"
    and cc: "set rest \<subseteq> set fr'"
    and d: "\<forall>n \<in> set ns. getId n \<in> ex' \<union> getId ` set fr'"
    and e: "\<forall>t \<in> set fr'. t \<in> set rest \<or> (\<exists>n \<in> set ns. same_core t n)"
    and f: "ex' = insert (getId s) ex \<longrightarrow>
             length (filter (\<lambda>t. getId t \<in> ex') fr') = length (filter (\<lambda>t. getId t \<in> ex') rest)"
    by (rule search_stepE)
  from inv c have vs: "valid_state b0 s" unfolding search_inv_def by simp
  have sid: "getId s \<in> all_ids" using valid_state_id[OF wf vs] .
  have ins: "getId ` set ns \<subseteq> all_ids"
    using valid_state_id[OF wf valid_state_neighbor[OF wf vs ns]] by blast
  from a have sub: "all_ids - ex' \<subseteq> all_ids - ex" by blast
  show ?thesis
  proof (cases "all_ids - ex' = all_ids - ex")
    case False
    with sub have "all_ids - ex' \<subset> all_ids - ex" by blast
    then have "card (all_ids - ex') < card (all_ids - ex)"
      by (rule psubset_card_mono[rotated]) (simp add: finite_all_ids)
    then show ?thesis by (simp add: search_measure_def c c')
  next
    case True
    with a sid have se: "getId s \<in> ex" by blast
    have "ex' \<subseteq> ex"
    proof
      fix x assume x: "x \<in> ex'"
      show "x \<in> ex"
      proof (rule ccontr)
        assume nx: "x \<notin> ex"
        with x b se have "x \<in> getId ` set ns" by blast
        with ins have "x \<in> all_ids" by blast
        with x nx True show False by blast
      qed
    qed
    with a have e: "ex' = ex" "ex' = insert (getId s) ex" by auto
    with f have "length (filter (\<lambda>t. getId t \<in> ex) fr') = length (filter (\<lambda>t. getId t \<in> ex) rest)"
      by simp
    with se show ?thesis by (simp add: search_measure_def c c' e(1))
  qed
qed

lemma search_terminates:
  assumes wf: "wf_board b0"
    and step: "\<And>c c'. search_inv b0 c \<Longrightarrow> body c = Continue c' \<Longrightarrow> search_step c c'"
    and ret: "\<And>c r. search_inv b0 c \<Longrightarrow> body c = Return r \<Longrightarrow> search_return c r"
  shows "\<exists>r. run_loop body ([root b0], {}) = Some (Inr r) \<and> (r = None \<longleftrightarrow> \<not> solvable b0)"
proof -
  have "wf (inv_image (less_than <*lex*> less_than) search_measure)"
    by (intro wf_inv_image wf_lex_prod wf_less_than)
  moreover have "search_inv b0 ([root b0], {})" by (rule search_inv_init)
  moreover have "search_inv b0 c' \<and> (c', c) \<in> inv_image (less_than <*lex*> less_than) search_measure"
    if "search_inv b0 c" "body c = Continue c'" for c c'
    using search_inv_step[OF wf that(1) step[OF that]] search_step_decreases[OF wf that(1) step[OF that]]
    by simp
  ultimately obtain r where r: "run_loop body ([root b0], {}) = Some r"
    using run_loop_terminates[where I = "search_inv b0" and body = body] by blast
  have "\<exists>c. search_inv b0 c \<and> body c = Return r"
  proof (rule run_loop_invariant[OF r])
    show "search_inv b0 ([root b0], {})" by (rule search_inv_init)
    show "\<And>c c'. search_inv b0 c \<Longrightarrow> body c = Continue c' \<Longrightarrow> search_inv b0 c'"
      using search_inv_step[OF wf] step by blast
  qed
  then obtain c where c: "search_inv b0 c" "body c = Return r" by blast
  from ret[OF c] have sr: "search_return c r" .
  obtain fr ex where ce: "c = (fr, ex)" by (cases c)
  show ?thesis
  proof (cases fr)
    case Nil
    with sr ce have "r = Inr None" by (simp add: search_return_def)
    moreover from c(1) ce Nil have "\<not> solvable b0" using search_inv_exhausted[OF wf] by simp
    ultimately show ?thesis using r by simp
  next
    case (Cons s rest)
    with sr ce have g: "isGoal s" and rr: "r = Inr (Some (reconstructPath s))"
      by (simp_all add: search_return_def)
    from c(1) ce Cons have "valid_state b0 s" by (simp add: search_inv_def)
    from search_inv_goal[OF wf this g] have "solvable b0" by (auto simp: solvable_def)
    with rr r show ?thesis by simp
  qed
qed

subsection \<open>How the loop bodies return\<close>

lemma valid_state_getNeighbors:
  assumes "wf_board b0" "valid_state b0 s"
  shows "\<exists>ns. getNeighbors s = Inr ns \<and> (\<forall>n \<in> set ns. valid_state b0 n)"
proof -
  from getNeighbors_complete[OF valid_state_wf[OF assms]] obtain ns where ns: "getNeighbors s = Inr ns"
    by blast
  with valid_state_neighbor[OF assms ns] show ?thesis by blast
qed

lemma bfs_body_path:
  assumes "bfs_body c = Return (Inr (Some path))"
  shows "\<exists>s rest ex. c = (s # rest, ex) \<and> isGoal s \<and> path = reconstructPath s"
proof -
  obtain fr ex where c: "c = (fr, ex)" by (cases c)
  from assms c obtain s rest where fr: "fr = s # rest" by (cases fr) auto
  from assms c fr have "isGoal s \<and> path = reconstructPath s"
    by (auto simp: Let_def split: if_splits sum.splits)
  with c fr show ?thesis by blast
qed

lemma bestFirst_body_path:
  assumes "bestFirst_body heuristic c = Return (Inr (Some path))"
  shows "\<exists>s rest ex. c = (s # rest, ex) \<and> isGoal s \<and> path = reconstructPath s"
proof -
  obtain fr ex where c: "c = (fr, ex)" by (cases c)
  from assms c obtain s rest where fr: "fr = s # rest" by (cases fr) auto
  from assms c fr have "isGoal s \<and> path = reconstructPath s"
    by (auto simp: Let_def split: if_splits sum.splits)
  with c fr show ?thesis by blast
qed

lemma aStar_body_path:
  assumes "aStar_body heuristic c = Return (Inr (Some path))"
  shows "\<exists>s rest ex. c = (s # rest, ex) \<and> isGoal s \<and> path = reconstructPath s"
proof -
  obtain fr ex where c: "c = (fr, ex)" by (cases c)
  from assms c obtain s rest where fr: "fr = s # rest" by (cases fr) auto
  from assms c fr have "isGoal s \<and> path = reconstructPath s"
    by (auto simp: Let_def split: if_splits sum.splits)
  with c fr show ?thesis by blast
qed

lemma bfs_body_return:
  assumes wf: "wf_board b0" and inv: "search_inv b0 c" and r: "bfs_body c = Return r"
  shows "search_return c r"
proof -
  obtain fr ex where c: "c = (fr, ex)" by (cases c)
  show ?thesis
  proof (cases fr)
    case Nil
    with r c show ?thesis by (simp add: search_return_def)
  next
    case (Cons s rest)
    with inv c have "valid_state b0 s" by (simp add: search_inv_def)
    from valid_state_getNeighbors[OF wf this] obtain ns where "getNeighbors s = Inr ns" by blast
    with r c Cons show ?thesis by (auto simp: search_return_def Let_def split: if_splits)
  qed
qed

lemma bestFirst_visit_total:
  assumes "\<forall>n \<in> set ns. \<exists>v. heuristic n = Inr v"
  shows "\<exists>fr'. bestFirst_visit heuristic ex ns fr = Inr fr'"
  using assms by (induction ns arbitrary: fr) auto

lemma aStar_visit_total:
  assumes "\<forall>n \<in> set ns. \<exists>v. heuristic n = Inr v"
  shows "\<exists>fr'. aStar_visit heuristic ex ns fr = Inr fr'"
  using assms by (induction ns arbitrary: fr) auto

lemma bestFirst_body_return:
  assumes wf: "wf_board b0" and th: "total_heuristic heuristic"
    and inv: "search_inv b0 c" and r: "bestFirst_body heuristic c = Return r"
  shows "search_return c r"
proof -
  obtain fr ex where c: "c = (fr, ex)" by (cases c)
  show ?thesis
  proof (cases fr)
    case Nil
    with r c show ?thesis by (simp add: search_return_def)
  next
    case (Cons s rest)
    with inv c have "valid_state b0 s" by (simp add: search_inv_def)
    from valid_state_getNeighbors[OF wf this] obtain ns where
      ns: "getNeighbors s = Inr ns" "\<forall>n \<in> set ns. valid_state b0 n" by blast
    with th have "\<forall>n \<in> set ns. \<exists>v. heuristic n = Inr v"
      unfolding total_heuristic_def using valid_state_wf[OF wf] by blast
    from bestFirst_visit_total[OF this] obtain fr' where
      "bestFirst_visit heuristic (insert (getId s) ex) ns rest = Inr fr'" by blast
    with r c Cons ns(1) show ?thesis by (auto simp: search_return_def Let_def split: if_splits)
  qed
qed

lemma aStar_body_return:
  assumes wf: "wf_board b0" and th: "total_heuristic heuristic"
    and inv: "search_inv b0 c" and r: "aStar_body heuristic c = Return r"
  shows "search_return c r"
proof -
  obtain fr ex where c: "c = (fr, ex)" by (cases c)
  show ?thesis
  proof (cases fr)
    case Nil
    with r c show ?thesis by (simp add: search_return_def)
  next
    case (Cons s rest)
    with inv c have "valid_state b0 s" by (simp add: search_inv_def)
    from valid_state_getNeighbors[OF wf this] obtain ns where
      ns: "getNeighbors s = Inr ns" "\<forall>n \<in> set ns. valid_state b0 n" by blast
    with th have "\<forall>n \<in> set ns. \<exists>v. heuristic n = Inr v"
      unfolding total_heuristic_def using valid_state_wf[OF wf] by blast
    from aStar_visit_total[OF this] obtain fr' where
      "aStar_visit heuristic (insert (getId s) ex) ns rest = Inr fr'" by blast
    with r c Cons ns(1) show ?thesis by (auto simp: search_return_def Let_def split: if_splits)
  qed
qed

lemma total_hammingDistance: "total_heuristic hammingDistance"
  by (simp add: total_heuristic_def hammingDistance_def)

lemma total_manhattanDistance: "total_heuristic manhattanDistance"
  unfolding total_heuristic_def using manhattan_spec by blast

subsection \<open>Soundness of a returned path\<close>

lemma search_sound:
  assumes wf: "wf_board b0"
    and step: "\<And>c c'. body c = Continue c' \<Longrightarrow> search_step c c'"
    and ret: "\<And>c. body c = Return (Inr (Some path))
                \<Longrightarrow> \<exists>s rest ex. c = (s # rest, ex) \<and> isGoal s \<and> path = reconstructPath s"
    and run: "run_loop body ([root b0], {}) = Some (Inr (Some path))"
  shows "\<exists>ms. path = map Some ms \<and> apply_moves b0 ms = Some goal_board"
proof -
  have "\<exists>c. search_inv b0 c \<and> body c = Return (Inr (Some path))"
  proof (rule run_loop_invariant[OF run])
    show "search_inv b0 ([root b0], {})" by (rule search_inv_init)
    show "\<And>c c'. search_inv b0 c \<Longrightarrow> body c = Continue c' \<Longrightarrow> search_inv b0 c'"
      using search_inv_step[OF wf] step by blast
  qed
  then obtain c where c: "search_inv b0 c" "body c = Return (Inr (Some path))" by blast
  from ret[OF c(2)] obtain s rest ex where s: "c = (s # rest, ex)" "isGoal s" "path = reconstructPath s"
    by blast
  from c(1) s(1) have "valid_state b0 s" by (simp add: search_inv_def)
  from search_inv_goal[OF wf this s(2)] s(3) show ?thesis by auto
qed

text \<open>
  C1. For a well-formed board, whenever \<^verbatim>\<open>bfs\<close>, \<^verbatim>\<open>bestFirstSearch\<close> or
  \<^verbatim>\<open>aStar\<close> (with any heuristic) returns a path, every entry of the path is a move,
  and sliding the blank by these moves in order, from the input board, gives the goal
  board.
\<close>

theorem returned_path_reaches_goal:
  assumes "wf_board b"
  shows "(bfs (root b) = Some (Inr (Some path))
            \<longrightarrow> (\<exists>ms. path = map Some ms \<and> apply_moves b ms = Some goal_board))
       \<and> (bestFirstSearch (root b) heuristic = Some (Inr (Some path))
            \<longrightarrow> (\<exists>ms. path = map Some ms \<and> apply_moves b ms = Some goal_board))
       \<and> (aStar (root b) heuristic = Some (Inr (Some path))
            \<longrightarrow> (\<exists>ms. path = map Some ms \<and> apply_moves b ms = Some goal_board))"
proof (intro conjI impI)
  assume "bfs (root b) = Some (Inr (Some path))"
  then have run: "run_loop bfs_body ([root b], {}) = Some (Inr (Some path))" by (simp add: bfs_def)
  show "\<exists>ms. path = map Some ms \<and> apply_moves b ms = Some goal_board"
  proof (rule search_sound[where body = bfs_body, OF assms _ _ run])
    show "\<And>c c'. bfs_body c = Continue c' \<Longrightarrow> search_step c c'" by (rule bfs_body_step)
    show "\<And>c. bfs_body c = Return (Inr (Some path))
            \<Longrightarrow> \<exists>s rest ex. c = (s # rest, ex) \<and> isGoal s \<and> path = reconstructPath s"
      by (rule bfs_body_path)
  qed
next
  assume "bestFirstSearch (root b) heuristic = Some (Inr (Some path))"
  then have run: "run_loop (bestFirst_body heuristic) ([root b], {}) = Some (Inr (Some path))"
    by (simp add: bestFirstSearch_def)
  show "\<exists>ms. path = map Some ms \<and> apply_moves b ms = Some goal_board"
  proof (rule search_sound[where body = "bestFirst_body heuristic", OF assms _ _ run])
    show "\<And>c c'. bestFirst_body heuristic c = Continue c' \<Longrightarrow> search_step c c'"
      by (rule bestFirst_body_step)
    show "\<And>c. bestFirst_body heuristic c = Return (Inr (Some path))
            \<Longrightarrow> \<exists>s rest ex. c = (s # rest, ex) \<and> isGoal s \<and> path = reconstructPath s"
      by (rule bestFirst_body_path)
  qed
next
  assume "aStar (root b) heuristic = Some (Inr (Some path))"
  then have run: "run_loop (aStar_body heuristic) ([root b], {}) = Some (Inr (Some path))"
    by (simp add: aStar_def)
  show "\<exists>ms. path = map Some ms \<and> apply_moves b ms = Some goal_board"
  proof (rule search_sound[where body = "aStar_body heuristic", OF assms _ _ run])
    show "\<And>c c'. aStar_body heuristic c = Continue c' \<Longrightarrow> search_step c c'"
      by (rule aStar_body_step)
    show "\<And>c. aStar_body heuristic c = Return (Inr (Some path))
            \<Longrightarrow> \<exists>s rest ex. c = (s # rest, ex) \<and> isGoal s \<and> path = reconstructPath s"
      by (rule aStar_body_path)
  qed
qed

theorem returned_path_reaches_goal_witness:
  "wf_board [[1, 2, 3], [4, 5, 0], [7, 8, 6]]
   \<and> bfs (root [[1, 2, 3], [4, 5, 0], [7, 8, 6]]) = Some (Inr (Some [Some (1, 0)]))
   \<and> bestFirstSearch (root [[1, 2, 3], [4, 5, 0], [7, 8, 6]]) hammingDistance = Some (Inr (Some [Some (1, 0)]))
   \<and> aStar (root [[1, 2, 3], [4, 5, 0], [7, 8, 6]]) hammingDistance = Some (Inr (Some [Some (1, 0)]))
   \<and> apply_moves [[1, 2, 3], [4, 5, 0], [7, 8, 6]] [(1, 0)] = Some goal_board"
proof -
  have w: "wf_board [[1, 2, 3], [4, 5, 0], [7, 8, 6]]"
    by (auto simp: wf_board_def grid3_def flat_def)
  have 1: "bfs (root [[1, 2, 3], [4, 5, 0], [7, 8, 6]]) = Some (Inr (Some [Some (1, 0)]))"
    by code_simp
  have 2: "bestFirstSearch (root [[1, 2, 3], [4, 5, 0], [7, 8, 6]]) hammingDistance = Some (Inr (Some [Some (1, 0)]))"
    by code_simp
  have 3: "aStar (root [[1, 2, 3], [4, 5, 0], [7, 8, 6]]) hammingDistance = Some (Inr (Some [Some (1, 0)]))"
    by code_simp
  from returned_path_reaches_goal[OF w, of "[Some (1, 0)]" hammingDistance]
  have "bfs (root [[1, 2, 3], [4, 5, 0], [7, 8, 6]]) = Some (Inr (Some [Some (1, 0)]))
            \<longrightarrow> (\<exists>ms. [Some (1, 0)] = map Some ms \<and> apply_moves [[1, 2, 3], [4, 5, 0], [7, 8, 6]] ms = Some goal_board)"
    by (rule conjunct1)
  from this[rule_format, OF 1]
  obtain ms where "[Some (1, 0)] = map Some ms" "apply_moves [[1, 2, 3], [4, 5, 0], [7, 8, 6]] ms = Some goal_board"
    by (elim exE conjE)
  moreover from this(1) have "ms = [(1, 0)]" by (cases ms) auto
  ultimately show ?thesis using w 1 2 3 by simp
qed

text \<open>
  C3. For a well-formed board each of the three searches returns after finitely many
  iterations of its loop, without throwing; the result is \<^verbatim>\<open>null\<close> exactly when
  the goal board cannot be reached from the input board by blank slides, and a path
  otherwise. For the informed searches the heuristic must not throw on well-formed boards,
  which holds for \<^verbatim>\<open>hammingDistance\<close> and \<^verbatim>\<open>manhattanDistance\<close>.
\<close>

theorem searches_terminate:
  assumes "wf_board b"
  shows "(\<exists>r. bfs (root b) = Some (Inr r) \<and> (r = None \<longleftrightarrow> \<not> solvable b))
       \<and> total_heuristic hammingDistance \<and> total_heuristic manhattanDistance
       \<and> (\<forall>heuristic. total_heuristic heuristic \<longrightarrow>
            (\<exists>r. bestFirstSearch (root b) heuristic = Some (Inr r) \<and> (r = None \<longleftrightarrow> \<not> solvable b))
          \<and> (\<exists>r. aStar (root b) heuristic = Some (Inr r) \<and> (r = None \<longleftrightarrow> \<not> solvable b)))"
proof (intro conjI allI impI)
  show "\<exists>r. bfs (root b) = Some (Inr r) \<and> (r = None \<longleftrightarrow> \<not> solvable b)"
    unfolding bfs_def
  proof (rule search_terminates[where body = bfs_body, OF assms])
    show "\<And>c c'. search_inv b c \<Longrightarrow> bfs_body c = Continue c' \<Longrightarrow> search_step c c'"
      by (rule bfs_body_step)
    show "\<And>c r. search_inv b c \<Longrightarrow> bfs_body c = Return r \<Longrightarrow> search_return c r"
      by (rule bfs_body_return[OF assms])
  qed
next
  show "total_heuristic hammingDistance" by (rule total_hammingDistance)
next
  show "total_heuristic manhattanDistance" by (rule total_manhattanDistance)
next
  fix heuristic assume th: "total_heuristic heuristic"
  show "\<exists>r. bestFirstSearch (root b) heuristic = Some (Inr r) \<and> (r = None \<longleftrightarrow> \<not> solvable b)"
    unfolding bestFirstSearch_def
  proof (rule search_terminates[where body = "bestFirst_body heuristic", OF assms])
    show "\<And>c c'. search_inv b c \<Longrightarrow> bestFirst_body heuristic c = Continue c' \<Longrightarrow> search_step c c'"
      by (rule bestFirst_body_step)
    show "\<And>c r. search_inv b c \<Longrightarrow> bestFirst_body heuristic c = Return r \<Longrightarrow> search_return c r"
      by (rule bestFirst_body_return[OF assms th])
  qed
next
  fix heuristic assume th: "total_heuristic heuristic"
  show "\<exists>r. aStar (root b) heuristic = Some (Inr r) \<and> (r = None \<longleftrightarrow> \<not> solvable b)"
    unfolding aStar_def
  proof (rule search_terminates[where body = "aStar_body heuristic", OF assms])
    show "\<And>c c'. search_inv b c \<Longrightarrow> aStar_body heuristic c = Continue c' \<Longrightarrow> search_step c c'"
      by (rule aStar_body_step)
    show "\<And>c r. search_inv b c \<Longrightarrow> aStar_body heuristic c = Return r \<Longrightarrow> search_return c r"
      by (rule aStar_body_return[OF assms th])
  qed
qed

theorem searches_terminate_witness:
  "wf_board [[1, 2, 3], [4, 5, 0], [7, 8, 6]]
   \<and> (\<exists>r. bfs (root [[1, 2, 3], [4, 5, 0], [7, 8, 6]]) = Some (Inr r)
          \<and> (r = None \<longleftrightarrow> \<not> solvable [[1, 2, 3], [4, 5, 0], [7, 8, 6]]))
   \<and> total_heuristic hammingDistance
   \<and> (\<exists>r. bestFirstSearch (root [[1, 2, 3], [4, 5, 0], [7, 8, 6]]) hammingDistance = Some (Inr r)
          \<and> (r = None \<longleftrightarrow> \<not> solvable [[1, 2, 3], [4, 5, 0], [7, 8, 6]]))
   \<and> (\<exists>r. aStar (root [[1, 2, 3], [4, 5, 0], [7, 8, 6]]) hammingDistance = Some (Inr r)
          \<and> (r = None \<longleftrightarrow> \<not> solvable [[1, 2, 3], [4, 5, 0], [7, 8, 6]]))
   \<and> bfs (root [[1, 2, 3], [4, 5, 0], [7, 8, 6]]) = Some (Inr (Some [Some (1, 0)]))"
proof -
  have w: "wf_board [[1, 2, 3], [4, 5, 0], [7, 8, 6]]"
    by (auto simp: wf_board_def grid3_def flat_def)
  have 1: "bfs (root [[1, 2, 3], [4, 5, 0], [7, 8, 6]]) = Some (Inr (Some [Some (1, 0)]))"
    by code_simp
  from searches_terminate[OF w] w 1 show ?thesis by blast
qed

subsection \<open>Ordered insertion into the frontier\<close>

lemma findIndex_takeWhile:
  "findIndex P xs = (if \<exists>x \<in> set xs. P x then int (length (takeWhile (\<lambda>x. \<not> P x) xs)) else - 1)"
  by (induction xs) (auto simp: Let_def)

lemma insert_at_findIndex:
  "(let index = findIndex P xs in if index = - 1 then xs @ [x] else splice_in xs index x)
     = takeWhile (\<lambda>y. \<not> P y) xs @ x # dropWhile (\<lambda>y. \<not> P y) xs"
proof (cases "\<exists>y \<in> set xs. P y")
  case True
  then have i: "findIndex P xs = int (length (takeWhile (\<lambda>x. \<not> P x) xs))"
    by (simp add: findIndex_takeWhile)
  have "take (length (takeWhile (\<lambda>x. \<not> P x) xs)) xs = takeWhile (\<lambda>x. \<not> P x) xs"
    by (rule takeWhile_eq_take[symmetric])
  moreover have "drop (length (takeWhile (\<lambda>x. \<not> P x) xs)) xs = dropWhile (\<lambda>x. \<not> P x) xs"
    by (rule dropWhile_eq_drop[symmetric])
  ultimately show ?thesis by (simp add: i splice_in_def Let_def)
next
  case False
  then have i: "findIndex P xs = - 1" by (simp add: findIndex_takeWhile)
  from False have tw: "takeWhile (\<lambda>x. \<not> P x) xs = xs" by simp
  from False have dw: "dropWhile (\<lambda>x. \<not> P x) xs = []" by simp
  show ?thesis unfolding tw dw i by simp
qed


lemma aStar_insert_eq:
  "aStar_insert n fr = takeWhile (\<lambda>s. f s \<le> f n) fr @ n # dropWhile (\<lambda>s. f s \<le> f n) fr"
  unfolding aStar_insert_def insert_at_findIndex by (simp add: not_less)

lemma sorted_dropWhile_greater:
  fixes key :: "'a \<Rightarrow> int"
  assumes "sorted (map key xs)" "y \<in> set (dropWhile (\<lambda>s. key s \<le> k) xs)"
  shows "k < key y"
  using assms by (induction xs) (auto split: if_splits)

lemma sorted_insert_key:
  fixes key :: "'a \<Rightarrow> int"
  assumes "sorted (map key xs)"
  shows "sorted (map key (takeWhile (\<lambda>s. key s \<le> key x) xs @ x # dropWhile (\<lambda>s. key s \<le> key x) xs))"
proof -
  have 1: "sorted (map key (takeWhile (\<lambda>s. key s \<le> key x) xs))"
    using assms by (metis sorted_append takeWhile_dropWhile_id map_append)
  have 2: "sorted (map key (dropWhile (\<lambda>s. key s \<le> key x) xs))"
    using assms by (metis sorted_append takeWhile_dropWhile_id map_append)
  have 3: "\<forall>a \<in> set (takeWhile (\<lambda>s. key s \<le> key x) xs). key a \<le> key x"
    by (auto dest: set_takeWhileD)
  have 4: "\<forall>b \<in> set (dropWhile (\<lambda>s. key s \<le> key x) xs). key x < key b"
    using sorted_dropWhile_greater[OF assms] by blast
  from 1 2 3 4 show ?thesis by (fastforce simp: sorted_append)
qed


lemma aStar_visit_sorted:
  assumes "sorted (map f fr)" "aStar_visit heuristic ex ns fr = Inr fr'"
  shows "sorted (map f fr')"
  using assms
proof (induction ns arbitrary: fr)
  case Nil then show ?case by simp
next
  case (Cons n ns)
  show ?case
  proof (cases "getId n \<in> ex")
    case True with Cons show ?thesis by simp
  next
    case False
    with Cons.prems(2) obtain v where
      r: "aStar_visit heuristic ex ns (aStar_insert (set_f (g n + v) (set_h v n)) fr) = Inr fr'"
      by (auto split: sum.splits)
    have "sorted (map f (aStar_insert (set_f (g n + v) (set_h v n)) fr))"
      unfolding aStar_insert_eq by (rule sorted_insert_key[OF Cons.prems(1)])
    from Cons.IH[OF this r] show ?thesis .
  qed
qed


lemma aStar_body_sorted:
  assumes "sorted (map f (fst c))" "aStar_body heuristic c = Continue c'"
  shows "sorted (map f (fst c'))"
proof -
  obtain fr ex where c: "c = (fr, ex)" by (cases c)
  from assms(2) c obtain s rest where fr: "fr = s # rest" by (cases fr) auto
  from assms(2) c fr obtain ns where
    v: "aStar_visit heuristic (insert (getId s) ex) ns rest = Inr (fst c')"
    by (auto simp: Let_def split: if_splits sum.splits)
  from assms(1) c fr have "sorted (map f rest)" by simp
  from aStar_visit_sorted[OF this v] show ?thesis .
qed



subsection \<open>Duplicates in the frontier\<close>

lemma bfs_visit_distinct:
  assumes "distinct (map getId fr)" "getId ` set fr \<subseteq> ex" "bfs_visit ns (fr, ex) = (fr', ex')"
  shows "distinct (map getId fr') \<and> getId ` set fr' \<subseteq> ex'"
  using assms
proof (induction ns arbitrary: fr ex)
  case Nil
  then show ?case by simp
next
  case (Cons n ns)
  show ?case
  proof (cases "getId n \<in> ex")
    case True
    with Cons.prems(3) have "bfs_visit ns (fr, ex) = (fr', ex')" by simp
    from Cons.IH[OF Cons.prems(1,2) this] show ?thesis .
  next
    case False
    with Cons.prems(3) have v: "bfs_visit ns (fr @ [n], insert (getId n) ex) = (fr', ex')" by simp
    from False Cons.prems(1,2) have "distinct (map getId (fr @ [n]))" by auto
    moreover from Cons.prems(2) have "getId ` set (fr @ [n]) \<subseteq> insert (getId n) ex" by auto
    ultimately show ?thesis using Cons.IH[OF _ _ v] by blast
  qed
qed

lemma bfs_body_distinct:
  assumes "distinct (map getId (fst c)) \<and> (getId ` set (fst c) \<subseteq> snd c \<or> length (fst c) \<le> 1)"
    and "bfs_body c = Continue c'"
  shows "distinct (map getId (fst c')) \<and> (getId ` set (fst c') \<subseteq> snd c' \<or> length (fst c') \<le> 1)"
proof -
  obtain fr ex where c: "c = (fr, ex)" by (cases c)
  obtain fr' ex' where c': "c' = (fr', ex')" by (cases c')
  from assms(2) c obtain s rest where fr: "fr = s # rest" by (cases fr) auto
  from assms(2) c c' fr obtain ns where v: "bfs_visit ns (rest, insert (getId s) ex) = (fr', ex')"
    by (auto simp: Let_def split: if_splits sum.splits)
  from assms(1) c fr have "distinct (map getId rest)" "getId ` set rest \<subseteq> insert (getId s) ex"
    by auto
  from bfs_visit_distinct[OF this v] show ?thesis by (simp add: c')
qed

lemma bfs_steps_distinct:
  assumes "steps bfs_body k ([s0], {}) = Some c"
  shows "distinct (map getId (fst c)) \<and> (getId ` set (fst c) \<subseteq> snd c \<or> length (fst c) \<le> 1)"
proof (rule steps_invariant[where
      I = "\<lambda>c. distinct (map getId (fst c)) \<and> (getId ` set (fst c) \<subseteq> snd c \<or> length (fst c) \<le> 1)"
      and body = bfs_body and ?c0.0 = "([s0], {})" and n = k])
  show "distinct (map getId (fst ([s0], {})))
      \<and> (getId ` set (fst ([s0], {})) \<subseteq> snd ([s0], {}) \<or> length (fst ([s0], {})) \<le> 1)" by simp
  show "\<And>c c'. distinct (map getId (fst c)) \<and> (getId ` set (fst c) \<subseteq> snd c \<or> length (fst c) \<le> 1)
          \<Longrightarrow> bfs_body c = Continue c'
          \<Longrightarrow> distinct (map getId (fst c')) \<and> (getId ` set (fst c') \<subseteq> snd c' \<or> length (fst c') \<le> 1)"
    by (rule bfs_body_distinct)
  show "steps bfs_body k ([s0], {}) = Some c" by fact
qed

lemma bfs_points_distinct:
  assumes st: "steps bfs_body k ([s0], {}) = Some (s # rest, ex)"
    and v: "bfs_visit ns (rest, insert (getId s) ex) = (fr', ex')"
  shows "distinct (map getId fr') \<and> getId ` set fr' \<subseteq> ex'"
proof -
  from bfs_steps_distinct[OF st]
  have "distinct (map getId rest)" "getId ` set rest \<subseteq> insert (getId s) ex" by auto
  from bfs_visit_distinct[OF this v] show ?thesis .
qed

lemma bestFirst_body_explored:
  assumes "bestFirst_body heuristic (fr, ex) = Continue (fr', ex')"
  shows "fr \<noteq> [] \<and> ex' = insert (getId (hd fr)) ex"
  using assms by (cases fr) (auto simp: Let_def split: if_splits sum.splits)

lemma aStar_body_explored:
  assumes "aStar_body heuristic (fr, ex) = Continue (fr', ex')"
  shows "fr \<noteq> [] \<and> ex' = insert (getId (hd fr)) ex"
  using assms by (cases fr) (auto simp: Let_def split: if_splits sum.splits)

lemma bestFirst_duplicate_run:
  "case steps (bestFirst_body hammingDistance) 12 ([root [[6, 2, 3], [4, 1, 8], [0, 5, 7]]], {}) of
     None \<Rightarrow> False | Some (fr, ex) \<Rightarrow> \<not> distinct (map getId fr)"
  by code_simp

lemma aStar_duplicate_run:
  "case steps (aStar_body manhattanDistance) 11 ([root [[1, 2, 3], [4, 0, 8], [7, 6, 5]]], {}) of
     None \<Rightarrow> False | Some (fr, ex) \<Rightarrow> \<not> distinct (map getId fr)"
  by code_simp

subsection \<open>Optimality of \<^verbatim>\<open>bfs\<close>\<close>

lemma apply_moves_snoc:
  "apply_moves b (ms @ [m]) = Some b' \<longleftrightarrow> (\<exists>b1. apply_moves b ms = Some b1 \<and> apply_move b1 m = Some b')"
  by (auto simp: apply_moves_append split: option.splits)

lemma search_inv_parts:
  assumes "search_inv b0 (fr, ex)"
  shows "\<forall>s \<in> set fr. valid_state b0 s" "board_id b0 \<in> ex \<union> getId ` set fr"
    "\<And>b. wf_board b \<Longrightarrow> board_id b \<in> ex \<Longrightarrow>
        (\<exists>s \<in> set fr. board s = b)
        \<or> (b \<noteq> goal_board \<and> (\<forall>m b'. apply_move b m = Some b' \<longrightarrow> board_id b' \<in> ex \<union> getId ` set fr))"
proof -
  from assms have I: "(\<forall>s \<in> set fr. valid_state b0 s)
        \<and> board_id b0 \<in> ex \<union> getId ` set fr
        \<and> (\<forall>b. wf_board b \<and> board_id b \<in> ex \<longrightarrow>
              (\<exists>s \<in> set fr. board s = b)
              \<or> (b \<noteq> goal_board
                  \<and> (\<forall>m b'. apply_move b m = Some b' \<longrightarrow> board_id b' \<in> ex \<union> getId ` set fr)))"
    unfolding search_inv_def prod.case .
  from I show "\<forall>s \<in> set fr. valid_state b0 s" by (rule conjunct1)
  from I show "board_id b0 \<in> ex \<union> getId ` set fr" by blast
  from I show "\<And>b. wf_board b \<Longrightarrow> board_id b \<in> ex \<Longrightarrow>
        (\<exists>s \<in> set fr. board s = b)
        \<or> (b \<noteq> goal_board \<and> (\<forall>m b'. apply_move b m = Some b' \<longrightarrow> board_id b' \<in> ex \<union> getId ` set fr))"
    by blast
qed

lemma frontier_board_of_id:
  assumes wf: "wf_board b0" and v: "\<forall>s \<in> set fr. valid_state b0 s"
    and wb: "wf_board b" and i: "board_id b \<in> getId ` set fr"
  shows "\<exists>t \<in> set fr. board t = b"
proof -
  from i obtain t where t: "t \<in> set fr" "getId t = board_id b" by auto
  with v have "wf_board (board t)" using valid_state_wf[OF wf] by blast
  with t(2) wb have "board t = b" using board_id_inj by (simp add: getId_board_id)
  with t(1) show ?thesis by blast
qed

lemma near_boards_seen:
  assumes wf: "wf_board b0" and inv: "search_inv b0 (fr, ex)"
    and opt: "\<forall>t \<in> set fr. opt_state b0 t"
    and ms: "apply_moves b0 ms = Some b" and le: "\<forall>t \<in> set fr. int (length ms) \<le> g t"
  shows "board_id b \<in> ex \<union> getId ` set fr"
  using ms le
proof (induction ms arbitrary: b rule: rev_induct)
  case Nil
  then have "b = b0" by simp
  with search_inv_parts(2)[OF inv] show ?case by simp
next
  case (snoc m ms)
  from snoc.prems(1) obtain b1 where b1: "apply_moves b0 ms = Some b1" "apply_move b1 m = Some b"
    by (auto simp: apply_moves_snoc)
  have wb1: "wf_board b1" using apply_moves_wf[OF wf b1(1)] .
  from snoc.prems(2) have lt: "\<forall>t \<in> set fr. int (length ms) < g t" by auto
  then have "\<forall>t \<in> set fr. int (length ms) \<le> g t" by auto
  from snoc.IH[OF b1(1) this] have seen: "board_id b1 \<in> ex \<union> getId ` set fr" .
  have nofr: "\<not> (\<exists>t \<in> set fr. board t = b1)"
  proof
    assume "\<exists>t \<in> set fr. board t = b1"
    then obtain t where t: "t \<in> set fr" "board t = b1" by blast
    with opt b1(1) have "g t \<le> int (length ms)" by (auto simp: opt_state_def)
    with lt t(1) show False by auto
  qed
  have "board_id b1 \<in> ex"
  proof (rule ccontr)
    assume "board_id b1 \<notin> ex"
    with seen have "board_id b1 \<in> getId ` set fr" by simp
    from frontier_board_of_id[OF wf search_inv_parts(1)[OF inv] wb1 this] nofr show False by simp
  qed
  from search_inv_parts(3)[OF inv wb1 this] nofr b1(2) show ?case by blast
qed

lemma bfs_visit_appends:
  assumes "bfs_visit ns (fr, ex) = (fr', ex')"
  shows "\<exists>ps. fr' = fr @ ps \<and> set ps \<subseteq> {n \<in> set ns. getId n \<notin> ex}"
  using assms
proof (induction ns arbitrary: fr ex)
  case Nil
  then show ?case by simp
next
  case (Cons n ns)
  show ?case
  proof (cases "getId n \<in> ex")
    case True
    with Cons.prems have "bfs_visit ns (fr, ex) = (fr', ex')" by simp
    from Cons.IH[OF this] show ?thesis by auto
  next
    case False
    with Cons.prems have "bfs_visit ns (fr @ [n], insert (getId n) ex) = (fr', ex')" by simp
    from Cons.IH[OF this] obtain ps where
      ps: "fr' = (fr @ [n]) @ ps" "set ps \<subseteq> {k \<in> set ns. getId k \<notin> insert (getId n) ex}" by blast
    from ps(1) have "fr' = fr @ (n # ps)" by simp
    moreover from ps(2) False have "set (n # ps) \<subseteq> {k \<in> set (n # ns). getId k \<notin> ex}" by auto
    ultimately show ?thesis by blast
  qed
qed

lemma g_root [simp]: "g (root b) = 0"
  by (simp add: root_def new_PuzzleState_def)

lemma sorted_map_const:
  fixes key :: "'a \<Rightarrow> int"
  assumes "\<forall>t \<in> set xs. key t = k"
  shows "sorted (map key xs)"
  using assms by (induction xs) auto

lemma bfs_inv_init: "bfs_inv b0 ([root b0], {})"
proof -
  have "opt_state b0 (root b0)"
    by (simp add: opt_state_def valid_state_root)
  then show ?thesis by (simp add: bfs_inv_def search_inv_init)
qed

lemma bfs_inv_step:
  assumes wf: "wf_board b0" and inv: "bfs_inv b0 c" and st: "bfs_body c = Continue c'"
  shows "bfs_inv b0 c'"
proof -
  obtain fr ex where c: "c = (fr, ex)" by (cases c)
  obtain fr' ex' where c': "c' = (fr', ex')" by (cases c')
  from st c obtain s rest where fr: "fr = s # rest" by (cases fr) auto
  from st c fr have ng: "\<not> isGoal s" by (auto split: if_splits)
  with st c fr obtain ns where ns: "getNeighbors s = Inr ns"
    and v: "bfs_visit ns (rest, insert (getId s) ex) = (fr', ex')"
    by (auto simp: c' Let_def split: sum.splits)
  from inv c fr have si: "search_inv b0 (s # rest, ex)"
    and op: "\<forall>t \<in> set (s # rest). opt_state b0 t"
    and so: "sorted (map g (s # rest))"
    and sp: "\<forall>t \<in> set (s # rest). g t \<le> g s + 1"
    and ie: "getId ` set rest \<subseteq> ex"
    by (simp_all add: bfs_inv_def)
  from op have os: "opt_state b0 s" by simp
  then have vs: "valid_state b0 s" by (simp add: opt_state_def)
  from bfs_visit_appends[OF v] obtain ps where
    ps: "fr' = rest @ ps" "set ps \<subseteq> {n \<in> set ns. getId n \<notin> insert (getId s) ex}" by blast
  have si': "search_inv b0 (fr', ex')"
    using search_inv_step[OF wf _ bfs_body_step[OF st]] inv c c' by (simp add: bfs_inv_def)
  have pg: "g t = g s + 1" if "t \<in> set ps" for t
  proof -
    from that ps(2) have "t \<in> set ns" by auto
    from getNeighbors_apply_move[OF valid_state_wf[OF wf vs] ns this] show ?thesis by blast
  qed
  have po: "opt_state b0 t" if t: "t \<in> set ps" for t
  proof -
    from t ps(2) have tn: "t \<in> set ns" and ti: "getId t \<notin> insert (getId s) ex" by auto
    have vt: "valid_state b0 t" using valid_state_neighbor[OF wf vs ns tn] .
    have "g t \<le> int (length ms)" if ms: "apply_moves b0 ms = Some (board t)" for ms
    proof (rule ccontr)
      assume "\<not> g t \<le> int (length ms)"
      with pg[OF t] have "int (length ms) \<le> g s" by simp
      with so have "\<forall>u \<in> set (s # rest). int (length ms) \<le> g u" by auto
      from near_boards_seen[OF wf si op ms this]
      have "board_id (board t) \<in> ex \<union> getId ` set (s # rest)" .
      with ie have "getId t \<in> insert (getId s) ex" by (auto simp: getId_board_id)
      with ti show False by simp
    qed
    with vt show ?thesis by (simp add: opt_state_def)
  qed
  have op': "\<forall>t \<in> set fr'. opt_state b0 t" using op po ps(1) by auto
  have rest_le: "\<forall>t \<in> set rest. g s \<le> g t \<and> g t \<le> g s + 1" using so sp by auto
  have "sorted (map g ps)" by (rule sorted_map_const[where k = "g s + 1"]) (simp add: pg)
  then have so': "sorted (map g fr')"
    unfolding ps(1) using so rest_le pg by (auto simp: sorted_append)
  have rng: "\<forall>t \<in> set fr'. g s \<le> g t \<and> g t \<le> g s + 1"
    unfolding ps(1) using rest_le pg by auto
  have sp': "\<forall>t \<in> set fr'. g t \<le> g (hd fr') + 1"
  proof (cases fr')
    case Nil then show ?thesis by simp
  next
    case (Cons a as)
    with rng have "g s \<le> g a" by simp
    with rng Cons show ?thesis by auto
  qed
  from bfs_visit_props[OF v] have "\<forall>n \<in> set ns. getId n \<in> ex'" "insert (getId s) ex \<subseteq> ex'" by blast+
  with ps ie have "getId ` set fr' \<subseteq> ex'" by auto
  then have ie': "getId ` set (tl fr') \<subseteq> ex'" by (cases fr') auto
  from si' op' so' sp' ie' show ?thesis by (simp add: bfs_inv_def c')
qed

lemma bfs_optimal:
  assumes wf: "wf_board b0" and run: "bfs (root b0) = Some (Inr (Some path))"
  shows "\<exists>ms. path = map Some ms \<and> apply_moves b0 ms = Some goal_board
            \<and> (\<forall>ms'. apply_moves b0 ms' = Some goal_board \<longrightarrow> length ms \<le> length ms')"
proof -
  from run have r: "run_loop bfs_body ([root b0], {}) = Some (Inr (Some path))" by (simp add: bfs_def)
  have "\<exists>c. bfs_inv b0 c \<and> bfs_body c = Return (Inr (Some path))"
  proof (rule run_loop_invariant[OF r])
    show "bfs_inv b0 ([root b0], {})" by (rule bfs_inv_init)
    show "\<And>c c'. bfs_inv b0 c \<Longrightarrow> bfs_body c = Continue c' \<Longrightarrow> bfs_inv b0 c'"
      by (rule bfs_inv_step[OF wf])
  qed
  then obtain c where c: "bfs_inv b0 c" "bfs_body c = Return (Inr (Some path))" by blast
  from bfs_body_path[OF c(2)] obtain s rest ex where
    s: "c = (s # rest, ex)" "isGoal s" "path = reconstructPath s" by blast
  from c(1) s(1) have os: "opt_state b0 s" by (simp add: bfs_inv_def)
  then have vs: "valid_state b0 s" by (simp add: opt_state_def)
  from search_inv_goal[OF wf vs s(2)] obtain ms where
    ms: "reconstructPath s = map Some ms" "apply_moves b0 ms = Some goal_board" "g s = int (length ms)"
    by blast
  from s(2) isGoal_iff[OF valid_state_wf[OF wf vs]] have "board s = goal_board" by simp
  with os ms(3) have "\<forall>ms'. apply_moves b0 ms' = Some goal_board \<longrightarrow> length ms \<le> length ms'"
    by (simp add: opt_state_def)
  with ms s(3) show ?thesis by auto
qed

subsection \<open>The Manhattan distance is consistent\<close>

lemma spec_manhattan_cells:
  "spec_manhattan b =
     (\<Sum>(i, j) \<leftarrow> cells. if b ! i ! j = 0 then 0
        else \<bar>int i - goal_row (b ! i ! j)\<bar> + \<bar>int j - goal_col (b ! i ! j)\<bar>)"
proof -
  have "spec_manhattan b =
     (\<Sum>c \<leftarrow> filter (\<lambda>(i, j). b ! i ! j \<noteq> 0) cells.
        case c of (i, j) \<Rightarrow> \<bar>int i - goal_row (b ! i ! j)\<bar> + \<bar>int j - goal_col (b ! i ! j)\<bar>)"
    by (simp add: spec_manhattan_def tile_cells_def)
  also have "\<dots> = (\<Sum>c \<leftarrow> cells. if (case c of (i, j) \<Rightarrow> b ! i ! j \<noteq> 0)
        then (case c of (i, j) \<Rightarrow> \<bar>int i - goal_row (b ! i ! j)\<bar> + \<bar>int j - goal_col (b ! i ! j)\<bar>)
        else 0)"
    by (rule sum_list_map_filter')
  also have "\<dots> = (\<Sum>(i, j) \<leftarrow> cells. if b ! i ! j = 0 then 0
        else \<bar>int i - goal_row (b ! i ! j)\<bar> + \<bar>int j - goal_col (b ! i ! j)\<bar>)"
    by (rule arg_cong[where f = sum_list]) (auto intro!: map_cong)
  finally show ?thesis .
qed

lemma manhattan_slide:
  assumes wf: "wf_board b" and bl: "blank_at b x y" and m: "m \<in> set moves" and ib: "in_bounds x y m"
  shows "spec_manhattan b \<le> 1 + spec_manhattan (slide b x y m)"
proof -
  from wf obtain t0 t1 t2 t3 t4 t5 t6 t7 t8 where b: "b = [[t0,t1,t2],[t3,t4,t5],[t6,t7,t8]]"
    and d: "distinct [t0,t1,t2,t3,t4,t5,t6,t7,t8]"
    by (rule wf_board_cases)
  from m consider "m = (0, 1)" | "m = (1, 0)" | "m = (0, -1)" | "m = (-1, 0)"
    by (auto simp: moves_def)
  then show ?thesis
  proof cases
    case 1
    from bl show ?thesis using bl ib d 1 unfolding spec_manhattan_cells
      by (cases rule: blank_cases)
        (simp_all add: b blank_at_def in_bounds_def slide_def cells_def Let_def)
  next
    case 2
    from bl show ?thesis using bl ib d 2 unfolding spec_manhattan_cells
      by (cases rule: blank_cases)
        (simp_all add: b blank_at_def in_bounds_def slide_def cells_def Let_def)
  next
    case 3
    from bl show ?thesis using bl ib d 3 unfolding spec_manhattan_cells
      by (cases rule: blank_cases)
        (simp_all add: b blank_at_def in_bounds_def slide_def cells_def Let_def)
  next
    case 4
    from bl show ?thesis using bl ib d 4 unfolding spec_manhattan_cells
      by (cases rule: blank_cases)
        (simp_all add: b blank_at_def in_bounds_def slide_def cells_def Let_def)
  qed
qed

subsection \<open>Optimality of \<^verbatim>\<open>aStar\<close> with a consistent heuristic\<close>

lemma shortest_path_exists:
  assumes "apply_moves b0 ms = Some b"
  shows "\<exists>ms'. shortest_path b0 ms' b"
proof -
  from ex_has_least_nat[of "\<lambda>ms. apply_moves b0 ms = Some b" ms length] assms
  show ?thesis unfolding shortest_path_def by blast
qed

lemma shortest_path_prefix:
  assumes "shortest_path b0 (ms @ [m]) b" "apply_moves b0 ms = Some b1"
  shows "shortest_path b0 ms b1"
  unfolding shortest_path_def
proof (intro conjI allI impI)
  show "apply_moves b0 ms = Some b1" by fact
next
  fix ms' assume a: "apply_moves b0 ms' = Some b1"
  from assms have "apply_move b1 m = Some b"
    by (auto simp: shortest_path_def apply_moves_snoc)
  with a have "apply_moves b0 (ms' @ [m]) = Some b" by (auto simp: apply_moves_snoc)
  with assms(1) have "length (ms @ [m]) \<le> length (ms' @ [m])" unfolding shortest_path_def by blast
  then show "length ms \<le> length ms'" by simp
qed

lemma valid_state_depth:
  assumes "valid_state b0 t" "shortest_path b0 ms (board t)"
  shows "int (length ms) \<le> g t"
proof -
  from valid_state_path[OF assms(1)] obtain ms' where
    "apply_moves b0 ms' = Some (board t)" "g t = int (length ms')" by blast
  with assms(2) show ?thesis by (auto simp: shortest_path_def)
qed

lemma valid_state_g_nonneg: "valid_state b0 t \<Longrightarrow> 0 \<le> g t"
  using valid_state_path by fastforce

lemma consistent_along:
  assumes c: "consistent_heuristic heuristic hf" and wf: "wf_board b"
    and ms: "apply_moves b ms = Some b'"
  shows "hf b \<le> int (length ms) + hf b'"
  using wf ms
proof (induction ms arbitrary: b)
  case Nil then show ?case by simp
next
  case (Cons m ms)
  from Cons.prems(2) obtain b1 where b1: "apply_move b m = Some b1" "apply_moves b1 ms = Some b'"
    by (auto split: option.splits)
  from c Cons.prems(1) b1(1) have "hf b \<le> 1 + hf b1" unfolding consistent_heuristic_def by blast
  moreover from Cons.IH[OF apply_move_preserves_wf[OF Cons.prems(1) b1(1)] b1(2)]
  have "hf b1 \<le> int (length ms) + hf b'" .
  ultimately show ?case by simp
qed

lemma astar_inv_parts:
  assumes "astar_inv hf b0 (fr, ex)"
  shows "\<forall>t \<in> set fr. valid_state b0 t"
    "\<forall>t \<in> set fr. f t = g t + hf (board t) \<or> (g t = 0 \<and> f t = 0)"
    "sorted (map f fr)"
    "board_id b0 \<in> ex \<or> (\<exists>t \<in> set fr. board t = b0 \<and> g t = 0)"
    "\<And>b. wf_board b \<Longrightarrow> board_id b \<in> ex \<Longrightarrow> b \<noteq> goal_board"
    "\<And>b m b'. wf_board b \<Longrightarrow> board_id b \<in> ex \<Longrightarrow> apply_move b m = Some b' \<Longrightarrow>
        board_id b' \<in> ex
        \<or> (\<exists>t \<in> set fr. board t = b'
              \<and> (\<forall>ms. apply_moves b0 ms = Some b \<longrightarrow> g t \<le> int (length ms) + 1))"
proof -
  from assms have I: "(\<forall>t \<in> set fr. valid_state b0 t)
        \<and> (\<forall>t \<in> set fr. f t = g t + hf (board t) \<or> (g t = 0 \<and> f t = 0))
        \<and> sorted (map f fr)
        \<and> (board_id b0 \<in> ex \<or> (\<exists>t \<in> set fr. board t = b0 \<and> g t = 0))
        \<and> (\<forall>b. wf_board b \<and> board_id b \<in> ex \<longrightarrow>
              b \<noteq> goal_board
              \<and> (\<forall>m b'. apply_move b m = Some b' \<longrightarrow>
                    board_id b' \<in> ex
                    \<or> (\<exists>t \<in> set fr. board t = b'
                          \<and> (\<forall>ms. apply_moves b0 ms = Some b \<longrightarrow> g t \<le> int (length ms) + 1))))"
    unfolding astar_inv_def prod.case .
  from I show "\<forall>t \<in> set fr. valid_state b0 t" by (rule conjunct1)
  from I show "\<forall>t \<in> set fr. f t = g t + hf (board t) \<or> (g t = 0 \<and> f t = 0)"
    by (rule conjunct2[THEN conjunct1])
  from I show "sorted (map f fr)" by (rule conjunct2[THEN conjunct2, THEN conjunct1])
  from I show "board_id b0 \<in> ex \<or> (\<exists>t \<in> set fr. board t = b0 \<and> g t = 0)"
    by (rule conjunct2[THEN conjunct2, THEN conjunct2, THEN conjunct1])
  from I have L: "\<forall>b. wf_board b \<and> board_id b \<in> ex \<longrightarrow>
              b \<noteq> goal_board
              \<and> (\<forall>m b'. apply_move b m = Some b' \<longrightarrow>
                    board_id b' \<in> ex
                    \<or> (\<exists>t \<in> set fr. board t = b'
                          \<and> (\<forall>ms. apply_moves b0 ms = Some b \<longrightarrow> g t \<le> int (length ms) + 1)))"
    by (rule conjunct2[THEN conjunct2, THEN conjunct2, THEN conjunct2])
  from L show "\<And>b. wf_board b \<Longrightarrow> board_id b \<in> ex \<Longrightarrow> b \<noteq> goal_board" by blast
  from L show "\<And>b m b'. wf_board b \<Longrightarrow> board_id b \<in> ex \<Longrightarrow> apply_move b m = Some b' \<Longrightarrow>
        board_id b' \<in> ex
        \<or> (\<exists>t \<in> set fr. board t = b'
              \<and> (\<forall>ms. apply_moves b0 ms = Some b \<longrightarrow> g t \<le> int (length ms) + 1))"
    by blast
qed

lemma frontier_on_shortest_path:
  assumes wf: "wf_board b0" and inv: "astar_inv hf b0 (fr, ex)"
    and sp: "shortest_path b0 ms b" and ne: "board_id b \<notin> ex"
  shows "\<exists>t \<in> set fr. \<exists>ms1 ms2. ms = ms1 @ ms2 \<and> apply_moves b0 ms1 = Some (board t)
            \<and> g t = int (length ms1)"
  using sp ne
proof (induction ms arbitrary: b rule: rev_induct)
  case Nil
  then have "b = b0" by (simp add: shortest_path_def)
  with Nil.prems(2) astar_inv_parts(4)[OF inv] obtain t where t: "t \<in> set fr" "board t = b0" "g t = 0"
    by blast
  then have "[] = [] @ ([] :: move list) \<and> apply_moves b0 [] = Some (board t) \<and> g t = int (length ([] :: move list))"
    by simp
  with t(1) show ?case by blast
next
  case (snoc m ms)
  from snoc.prems(1) obtain b1 where b1: "apply_moves b0 ms = Some b1" "apply_move b1 m = Some b"
    by (auto simp: shortest_path_def apply_moves_snoc)
  have sp1: "shortest_path b0 ms b1" using shortest_path_prefix[OF snoc.prems(1) b1(1)] .
  have wb1: "wf_board b1" using apply_moves_wf[OF wf b1(1)] .
  show ?case
  proof (cases "board_id b1 \<in> ex")
    case True
    from astar_inv_parts(6)[OF inv wb1 True b1(2)] snoc.prems(2) obtain t where
      t: "t \<in> set fr" "board t = b" "\<forall>ms'. apply_moves b0 ms' = Some b1 \<longrightarrow> g t \<le> int (length ms') + 1"
      by blast
    from t(3) b1(1) have "g t \<le> int (length ms) + 1" by blast
    moreover from valid_state_depth[of b0 t "ms @ [m]"] astar_inv_parts(1)[OF inv] t(1,2) snoc.prems(1)
    have "int (length (ms @ [m])) \<le> g t" by blast
    ultimately have "g t = int (length (ms @ [m]))" by simp
    moreover from snoc.prems(1) t(2) have "apply_moves b0 (ms @ [m]) = Some (board t)"
      by (simp add: shortest_path_def)
    ultimately have "ms @ [m] = (ms @ [m]) @ [] \<and> apply_moves b0 (ms @ [m]) = Some (board t)
        \<and> g t = int (length (ms @ [m]))" by simp
    with t(1) show ?thesis by blast
  next
    case False
    from snoc.IH[OF sp1 False] obtain t ms1 ms2 where
      t: "t \<in> set fr" "ms = ms1 @ ms2" "apply_moves b0 ms1 = Some (board t)" "g t = int (length ms1)"
      by blast
    then have "ms @ [m] = ms1 @ (ms2 @ [m]) \<and> apply_moves b0 ms1 = Some (board t)
        \<and> g t = int (length ms1)" by simp
    with t(1) show ?thesis by blast
  qed
qed

lemma head_optimal:
  assumes wf: "wf_board b0" and c: "consistent_heuristic heuristic hf"
    and inv: "astar_inv hf b0 (s # rest, ex)" and ne: "getId s \<notin> ex"
  shows "opt_state b0 s"
proof -
  from astar_inv_parts(1)[OF inv] have vs: "valid_state b0 s" by simp
  have ws: "wf_board (board s)" using valid_state_wf[OF wf vs] .
  have "g s \<le> int (length ms)" if ms: "apply_moves b0 ms = Some (board s)" for ms
  proof (cases "g s = 0")
    case True then show ?thesis by simp
  next
    case False
    with astar_inv_parts(2)[OF inv] have fs: "f s = g s + hf (board s)" by auto
    from shortest_path_exists[OF ms] obtain ms' where sp: "shortest_path b0 ms' (board s)" by blast
    from ne have "board_id (board s) \<notin> ex" by (simp add: getId_board_id)
    from frontier_on_shortest_path[OF wf inv sp this] obtain t ms1 ms2 where
      t: "t \<in> set (s # rest)" "ms' = ms1 @ ms2" "apply_moves b0 ms1 = Some (board t)"
        "g t = int (length ms1)" by blast
    from astar_inv_parts(1)[OF inv] t(1) have vt: "valid_state b0 t" by blast
    have wt: "wf_board (board t)" using valid_state_wf[OF wf vt] .
    from astar_inv_parts(3)[OF inv] t(1) have "f s \<le> f t" by auto
    moreover have "f t \<le> g t + hf (board t)"
    proof -
      from c wt have "0 \<le> hf (board t)" unfolding consistent_heuristic_def by blast
      with astar_inv_parts(2)[OF inv] t(1) show ?thesis by auto
    qed
    moreover have "hf (board t) \<le> int (length ms2) + hf (board s)"
    proof -
      from sp t(2,3) have "apply_moves (board t) ms2 = Some (board s)"
        by (simp add: shortest_path_def apply_moves_append)
      from consistent_along[OF c wt this] show ?thesis .
    qed
    ultimately have "g s \<le> int (length ms')" using fs t(2,4) by simp
    moreover from sp ms have "length ms' \<le> length ms" unfolding shortest_path_def by blast
    ultimately show ?thesis by simp
  qed
  with vs show ?thesis by (simp add: opt_state_def)
qed

lemma aStar_visit_scored:
  assumes "aStar_visit heuristic ex ns fr = Inr fr'"
  shows "set fr \<subseteq> set fr'
       \<and> (\<forall>n \<in> set ns. getId n \<in> ex
             \<or> (\<exists>t \<in> set fr'. same_core t n \<and> (\<exists>v. heuristic n = Inr v \<and> f t = g t + v)))
       \<and> (\<forall>t \<in> set fr'. t \<in> set fr
             \<or> (\<exists>n \<in> set ns. same_core t n \<and> (\<exists>v. heuristic n = Inr v \<and> f t = g t + v)))"
  using assms
proof (induction ns arbitrary: fr)
  case Nil
  then show ?case by simp
next
  case (Cons n ns)
  show ?case
  proof (cases "getId n \<in> ex")
    case True
    with Cons.prems have "aStar_visit heuristic ex ns fr = Inr fr'" by simp
    from Cons.IH[OF this] True show ?thesis by auto
  next
    case False
    with Cons.prems obtain v where v: "heuristic n = Inr v"
      and r: "aStar_visit heuristic ex ns (aStar_insert (set_f (g n + v) (set_h v n)) fr) = Inr fr'"
      by (auto split: sum.splits)
    define n' where "n' = set_f (g n + v) (set_h v n)"
    have sc: "same_core n' n" and fn: "f n' = g n' + v"
      by (simp_all add: n'_def same_core_def set_f_def set_h_def)
    from Cons.IH[OF r] have
      1: "set (aStar_insert n' fr) \<subseteq> set fr'"
      and 2: "\<forall>k \<in> set ns. getId k \<in> ex
             \<or> (\<exists>t \<in> set fr'. same_core t k \<and> (\<exists>v. heuristic k = Inr v \<and> f t = g t + v))"
      and 3: "\<forall>t \<in> set fr'. t \<in> set (aStar_insert n' fr)
             \<or> (\<exists>k \<in> set ns. same_core t k \<and> (\<exists>v. heuristic k = Inr v \<and> f t = g t + v))"
      unfolding n'_def by blast+
    from 1 have a: "set fr \<subseteq> set fr'" and a': "n' \<in> set fr'"
      by (auto simp: set_aStar_insert)
    from a' sc fn v have "\<exists>t \<in> set fr'. same_core t n \<and> (\<exists>v. heuristic n = Inr v \<and> f t = g t + v)"
      by blast
    with 2 have b: "\<forall>k \<in> set (n # ns). getId k \<in> ex
             \<or> (\<exists>t \<in> set fr'. same_core t k \<and> (\<exists>v. heuristic k = Inr v \<and> f t = g t + v))"
      by simp
    have c: "\<forall>t \<in> set fr'. t \<in> set fr
             \<or> (\<exists>k \<in> set (n # ns). same_core t k \<and> (\<exists>v. heuristic k = Inr v \<and> f t = g t + v))"
    proof
      fix t assume "t \<in> set fr'"
      with 3 consider "t \<in> set (aStar_insert n' fr)"
        | "\<exists>k \<in> set ns. same_core t k \<and> (\<exists>v. heuristic k = Inr v \<and> f t = g t + v)" by blast
      then show "t \<in> set fr
             \<or> (\<exists>k \<in> set (n # ns). same_core t k \<and> (\<exists>v. heuristic k = Inr v \<and> f t = g t + v))"
      proof cases
        case 1
        then have "t = n' \<or> t \<in> set fr" by (simp add: set_aStar_insert)
        with sc fn v show ?thesis by auto
      next
        case 2 then show ?thesis by auto
      qed
    qed
    from a b c show ?thesis by blast
  qed
qed

lemma astar_inv_init: "astar_inv hf b0 ([root b0], {})"
proof -
  have "f (root b0) = 0" by (simp add: root_def new_PuzzleState_def)
  then show ?thesis by (simp add: astar_inv_def valid_state_root)
qed

lemma astar_inv_step:
  assumes wf: "wf_board b0" and c: "consistent_heuristic heuristic hf"
    and inv: "astar_inv hf b0 cf" and st: "aStar_body heuristic cf = Continue cf'"
  shows "astar_inv hf b0 cf'"
proof -
  obtain fr ex where cf: "cf = (fr, ex)" by (cases cf)
  obtain fr' ex' where cf': "cf' = (fr', ex')" by (cases cf')
  from st cf obtain s rest where fr: "fr = s # rest" by (cases fr) auto
  from st cf fr have ng: "\<not> isGoal s" by (auto split: if_splits)
  with st cf fr obtain ns where ns: "getNeighbors s = Inr ns"
    and v: "aStar_visit heuristic (insert (getId s) ex) ns rest = Inr fr'"
    and e: "ex' = insert (getId s) ex"
    by (auto simp: cf' Let_def split: sum.splits)
  from inv cf fr have I: "astar_inv hf b0 (s # rest, ex)" by simp
  note P = astar_inv_parts[OF I]
  from P(1) have vs: "valid_state b0 s" by simp
  have ws: "wf_board (board s)" using valid_state_wf[OF wf vs] .
  from aStar_visit_scored[OF v] have
    sub: "set rest \<subseteq> set fr'"
    and ins: "\<forall>n \<in> set ns. getId n \<in> ex'
             \<or> (\<exists>t \<in> set fr'. same_core t n \<and> (\<exists>v. heuristic n = Inr v \<and> f t = g t + v))"
    and org: "\<forall>t \<in> set fr'. t \<in> set rest
             \<or> (\<exists>n \<in> set ns. same_core t n \<and> (\<exists>v. heuristic n = Inr v \<and> f t = g t + v))"
    unfolding e by blast+
  have nv: "valid_state b0 n" if "n \<in> set ns" for n
    using valid_state_neighbor[OF wf vs ns that] .
  have hn: "heuristic n = Inr (hf (board n))" if "n \<in> set ns" for n
    using c valid_state_wf[OF wf nv[OF that]] unfolding consistent_heuristic_def by blast
  have 1: "\<forall>t \<in> set fr'. valid_state b0 t"
  proof
    fix t assume "t \<in> set fr'"
    with org consider "t \<in> set rest" | n where "n \<in> set ns" "same_core t n" by blast
    then show "valid_state b0 t"
    proof cases
      case 1 with P(1) show ?thesis by simp
    next
      case 2 from valid_state_same_core[OF nv[OF 2(1)] 2(2)] show ?thesis .
    qed
  qed
  have 2: "\<forall>t \<in> set fr'. f t = g t + hf (board t) \<or> (g t = 0 \<and> f t = 0)"
  proof
    fix t assume "t \<in> set fr'"
    with org consider "t \<in> set rest"
      | n w where "n \<in> set ns" "same_core t n" "heuristic n = Inr w" "f t = g t + w" by blast
    then show "f t = g t + hf (board t) \<or> (g t = 0 \<and> f t = 0)"
    proof cases
      case 1 with P(2) show ?thesis by simp
    next
      case 2
      from 2(3) hn[OF 2(1)] have "w = hf (board n)" by simp
      with 2(2,4) show ?thesis by (simp add: same_core_def)
    qed
  qed
  have 3: "sorted (map f fr')"
    using aStar_body_sorted[of cf heuristic cf'] P(3) st by (simp add: cf cf' fr)
  have 4: "board_id b0 \<in> ex' \<or> (\<exists>t \<in> set fr'. board t = b0 \<and> g t = 0)"
  proof -
    from P(4) consider "board_id b0 \<in> ex" | "board s = b0" | t where "t \<in> set rest" "board t = b0" "g t = 0"
      by auto
    then show ?thesis
    proof cases
      case 1 then show ?thesis by (simp add: e)
    next
      case 2 then show ?thesis by (simp add: e getId_board_id)
    next
      case 3 with sub show ?thesis by blast
    qed
  qed
  have 5: "b \<noteq> goal_board" if wb: "wf_board b" and ib: "board_id b \<in> ex'" for b
  proof (cases "board_id b \<in> ex")
    case True from P(5)[OF wb True] show ?thesis .
  next
    case False
    with ib have "board_id b = getId s" by (simp add: e)
    with ws wb have "b = board s" using board_id_inj by (simp add: getId_board_id)
    with ng isGoal_iff[OF ws] show ?thesis by simp
  qed
  have 6: "board_id b' \<in> ex'
        \<or> (\<exists>t \<in> set fr'. board t = b'
              \<and> (\<forall>ms. apply_moves b0 ms = Some b \<longrightarrow> g t \<le> int (length ms) + 1))"
    if wb: "wf_board b" and ib: "board_id b \<in> ex'" and am: "apply_move b m = Some b'" for b m b'
  proof (cases "board_id b \<in> ex")
    case True
    from P(6)[OF wb True am] consider "board_id b' \<in> ex"
      | t where "t \<in> set (s # rest)" "board t = b'"
          "\<forall>ms. apply_moves b0 ms = Some b \<longrightarrow> g t \<le> int (length ms) + 1" by blast
    then show ?thesis
    proof cases
      case 1 then show ?thesis by (simp add: e)
    next
      case 2
      show ?thesis
      proof (cases "t = s")
        case True with 2(2) show ?thesis by (simp add: e getId_board_id)
      next
        case False
        with 2(1) sub have "t \<in> set fr'" by auto
        with 2(2,3) show ?thesis by blast
      qed
    qed
  next
    case False
    with ib have ids: "board_id b = getId s" by (simp add: e)
    with ws wb have bs: "b = board s" using board_id_inj by (simp add: getId_board_id)
    from False ids have "getId s \<notin> ex" by simp
    from head_optimal[OF wf c I this] have os: "opt_state b0 s" .
    from getNeighbors_complete[OF ws] ns am bs obtain n where n: "n \<in> set ns" "board n = b'"
      by (metis sum.inject(2))
    from getNeighbors_apply_move[OF ws ns n(1)] have gn: "g n = g s + 1" by blast
    from ins n(1) consider "getId n \<in> ex'" | t where "t \<in> set fr'" "same_core t n" by blast
    then show ?thesis
    proof cases
      case 1 with n(2) show ?thesis by (simp add: getId_board_id)
    next
      case 2
      from 2(2) n(2) gn have "board t = b'" "g t = g s + 1" by (simp_all add: same_core_def)
      moreover from os bs have "\<forall>ms. apply_moves b0 ms = Some b \<longrightarrow> g s \<le> int (length ms)"
        by (simp add: opt_state_def)
      ultimately have "board t = b' \<and> (\<forall>ms. apply_moves b0 ms = Some b \<longrightarrow> g t \<le> int (length ms) + 1)"
        by simp
      with 2(1) show ?thesis by blast
    qed
  qed
  from 1 2 3 4 5 6 show ?thesis unfolding cf' astar_inv_def prod.case by blast
qed

lemma aStar_optimal:
  assumes wf: "wf_board b0" and c: "consistent_heuristic heuristic hf"
    and run: "aStar (root b0) heuristic = Some (Inr (Some path))"
  shows "\<exists>ms. path = map Some ms \<and> apply_moves b0 ms = Some goal_board
            \<and> (\<forall>ms'. apply_moves b0 ms' = Some goal_board \<longrightarrow> length ms \<le> length ms')"
proof -
  from run have r: "run_loop (aStar_body heuristic) ([root b0], {}) = Some (Inr (Some path))"
    by (simp add: aStar_def)
  have "\<exists>cf. astar_inv hf b0 cf \<and> aStar_body heuristic cf = Return (Inr (Some path))"
  proof (rule run_loop_invariant[OF r])
    show "astar_inv hf b0 ([root b0], {})" by (rule astar_inv_init)
    show "\<And>cf cf'. astar_inv hf b0 cf \<Longrightarrow> aStar_body heuristic cf = Continue cf'
            \<Longrightarrow> astar_inv hf b0 cf'"
      by (rule astar_inv_step[OF wf c])
  qed
  then obtain cf where cf: "astar_inv hf b0 cf" "aStar_body heuristic cf = Return (Inr (Some path))"
    by blast
  from aStar_body_path[OF cf(2)] obtain s rest ex where
    s: "cf = (s # rest, ex)" "isGoal s" "path = reconstructPath s" by blast
  from cf(1) s(1) have I: "astar_inv hf b0 (s # rest, ex)" by simp
  from astar_inv_parts(1)[OF I] have vs: "valid_state b0 s" by simp
  have ws: "wf_board (board s)" using valid_state_wf[OF wf vs] .
  from s(2) isGoal_iff[OF ws] have bg: "board s = goal_board" by simp
  have "getId s \<notin> ex"
  proof
    assume "getId s \<in> ex"
    then have "board_id (board s) \<in> ex" by (simp add: getId_board_id)
    from astar_inv_parts(5)[OF I ws this] bg show False by simp
  qed
  from head_optimal[OF wf c I this] have os: "opt_state b0 s" .
  from search_inv_goal[OF wf vs s(2)] obtain ms where
    ms: "reconstructPath s = map Some ms" "apply_moves b0 ms = Some goal_board" "g s = int (length ms)"
    by blast
  from os bg ms(3) have "\<forall>ms'. apply_moves b0 ms' = Some goal_board \<longrightarrow> length ms \<le> length ms'"
    by (simp add: opt_state_def)
  with ms s(3) show ?thesis by auto
qed

lemma manhattan_consistent: "consistent_heuristic manhattanDistance spec_manhattan"
  unfolding consistent_heuristic_def
proof (intro conjI allI impI)
  fix s assume "wf_board (board s)"
  then show "manhattanDistance s = Inr (spec_manhattan (board s))" by (rule manhattan_spec)
next
  fix b :: board show "0 \<le> spec_manhattan b" by (rule spec_manhattan_nonneg)
next
  fix b m b' assume a: "wf_board b \<and> apply_move b m = Some b'"
  then have wf: "wf_board b" and am: "apply_move b m = Some b'" by simp_all
  from wf obtain x y where bl: "blank_at b x y" using wf_blank_exists by blast
  from am have "m \<in> set moves" "in_bounds x y m" "b' = slide b x y m"
    unfolding apply_move_wf[OF wf bl] by (simp_all split: if_splits)
  with manhattan_slide[OF wf bl] show "spec_manhattan b \<le> 1 + spec_manhattan b'" by simp
qed

subsection \<open>Path lengths of the three searches\<close>

lemma bfs_returns_shortest:
  assumes wf: "wf_board b" and so: "solvable b"
  shows "\<exists>ms. bfs (root b) = Some (Inr (Some (map Some ms))) \<and> apply_moves b ms = Some goal_board
            \<and> (\<forall>ms'. apply_moves b ms' = Some goal_board \<longrightarrow> length ms \<le> length ms')"
proof -
  have "\<exists>r. run_loop bfs_body ([root b], {}) = Some (Inr r) \<and> (r = None \<longleftrightarrow> \<not> solvable b)"
  proof (rule search_terminates[where body = bfs_body, OF wf])
    show "\<And>c c'. search_inv b c \<Longrightarrow> bfs_body c = Continue c' \<Longrightarrow> search_step c c'"
      by (rule bfs_body_step)
    show "\<And>c r. search_inv b c \<Longrightarrow> bfs_body c = Return r \<Longrightarrow> search_return c r"
      by (rule bfs_body_return[OF wf])
  qed
  with so obtain path where p: "bfs (root b) = Some (Inr (Some path))"
    by (auto simp: bfs_def)
  from bfs_optimal[OF wf p] p show ?thesis by auto
qed

lemma aStar_returns_shortest:
  assumes wf: "wf_board b" and so: "solvable b"
  shows "\<exists>ms. aStar (root b) manhattanDistance = Some (Inr (Some (map Some ms)))
            \<and> apply_moves b ms = Some goal_board
            \<and> (\<forall>ms'. apply_moves b ms' = Some goal_board \<longrightarrow> length ms \<le> length ms')"
proof -
  have "\<exists>r. run_loop (aStar_body manhattanDistance) ([root b], {}) = Some (Inr r)
          \<and> (r = None \<longleftrightarrow> \<not> solvable b)"
  proof (rule search_terminates[where body = "aStar_body manhattanDistance", OF wf])
    show "\<And>c c'. search_inv b c \<Longrightarrow> aStar_body manhattanDistance c = Continue c' \<Longrightarrow> search_step c c'"
      by (rule aStar_body_step)
    show "\<And>c r. search_inv b c \<Longrightarrow> aStar_body manhattanDistance c = Return r \<Longrightarrow> search_return c r"
      by (rule aStar_body_return[OF wf total_manhattanDistance])
  qed
  with so obtain path where p: "aStar (root b) manhattanDistance = Some (Inr (Some path))"
    by (auto simp: aStar_def)
  from aStar_optimal[OF wf manhattan_consistent p] p show ?thesis by auto
qed

lemma bestFirst_longer_run:
  "bestFirstSearch (root [[1, 6, 2], [5, 0, 3], [4, 7, 8]]) manhattanDistance
     = Some (Inr (Some (map Some
         [(0, - 1), (1, 0), (0, 1), (- 1, 0), (- 1, 0), (0, 1), (1, 0), (0, - 1), (1, 0), (0, 1)])))"
  by code_simp

lemma bestFirst_longer_paths:
  "apply_moves [[1, 6, 2], [5, 0, 3], [4, 7, 8]]
      [(0, - 1), (1, 0), (0, 1), (- 1, 0), (- 1, 0), (0, 1), (1, 0), (0, - 1), (1, 0), (0, 1)]
     = Some goal_board"
  "apply_moves [[1, 6, 2], [5, 0, 3], [4, 7, 8]]
      [(- 1, 0), (0, 1), (1, 0), (0, - 1), (0, - 1), (1, 0), (0, 1), (0, 1)]
     = Some goal_board"
  by code_simp+

text \<open>
  C2. For a well-formed solvable board, \<^verbatim>\<open>bfs\<close> and \<^verbatim>\<open>aStar\<close> with
  \<^verbatim>\<open>manhattanDistance\<close> each return a path that solves the board and is no longer than
  any sequence of blank slides that solves it. \<^verbatim>\<open>bestFirstSearch\<close> has no such
  guarantee: on the board \<open>[[1,6,2],[5,0,3],[4,7,8]]\<close> with \<^verbatim>\<open>manhattanDistance\<close>
  it returns a valid solution of 10 moves, while 8 moves suffice.
\<close>

theorem bfs_and_aStar_are_optimal:
  assumes "wf_board b" "solvable b"
  shows "(\<exists>ms. bfs (root b) = Some (Inr (Some (map Some ms))) \<and> apply_moves b ms = Some goal_board
            \<and> (\<forall>ms'. apply_moves b ms' = Some goal_board \<longrightarrow> length ms \<le> length ms'))
       \<and> (\<exists>ms. aStar (root b) manhattanDistance = Some (Inr (Some (map Some ms)))
            \<and> apply_moves b ms = Some goal_board
            \<and> (\<forall>ms'. apply_moves b ms' = Some goal_board \<longrightarrow> length ms \<le> length ms'))
       \<and> wf_board [[1, 6, 2], [5, 0, 3], [4, 7, 8]]
       \<and> (\<exists>p ms. bestFirstSearch (root [[1, 6, 2], [5, 0, 3], [4, 7, 8]]) manhattanDistance
                   = Some (Inr (Some (map Some p)))
            \<and> apply_moves [[1, 6, 2], [5, 0, 3], [4, 7, 8]] p = Some goal_board
            \<and> apply_moves [[1, 6, 2], [5, 0, 3], [4, 7, 8]] ms = Some goal_board
            \<and> length p = 10 \<and> length ms = 8)"
proof (intro conjI)
  show "\<exists>ms. bfs (root b) = Some (Inr (Some (map Some ms))) \<and> apply_moves b ms = Some goal_board
            \<and> (\<forall>ms'. apply_moves b ms' = Some goal_board \<longrightarrow> length ms \<le> length ms')"
    by (rule bfs_returns_shortest[OF assms])
  show "\<exists>ms. aStar (root b) manhattanDistance = Some (Inr (Some (map Some ms)))
            \<and> apply_moves b ms = Some goal_board
            \<and> (\<forall>ms'. apply_moves b ms' = Some goal_board \<longrightarrow> length ms \<le> length ms')"
    by (rule aStar_returns_shortest[OF assms])
  show "wf_board [[1, 6, 2], [5, 0, 3], [4, 7, 8]]"
    by (auto simp: wf_board_def grid3_def flat_def)
  have "bestFirstSearch (root [[1, 6, 2], [5, 0, 3], [4, 7, 8]]) manhattanDistance
          = Some (Inr (Some (map Some
              [(0, - 1), (1, 0), (0, 1), (- 1, 0), (- 1, 0), (0, 1), (1, 0), (0, - 1), (1, 0), (0, 1)])))
      \<and> apply_moves [[1, 6, 2], [5, 0, 3], [4, 7, 8]]
          [(0, - 1), (1, 0), (0, 1), (- 1, 0), (- 1, 0), (0, 1), (1, 0), (0, - 1), (1, 0), (0, 1)]
          = Some goal_board
      \<and> apply_moves [[1, 6, 2], [5, 0, 3], [4, 7, 8]]
          [(- 1, 0), (0, 1), (1, 0), (0, - 1), (0, - 1), (1, 0), (0, 1), (0, 1)] = Some goal_board
      \<and> length [(0, - 1), (1, 0), (0, 1), (- 1, 0), (- 1, 0), (0, 1), (1, 0), (0, - 1), (1, 0), (0, 1 :: int) :: move] = 10
      \<and> length [(- 1, 0), (0, 1), (1, 0), (0, - 1), (0, - 1), (1, 0), (0, 1), (0, 1 :: int) :: move] = 8"
    using bestFirst_longer_run bestFirst_longer_paths by simp
  then show "\<exists>p ms. bestFirstSearch (root [[1, 6, 2], [5, 0, 3], [4, 7, 8]]) manhattanDistance
                   = Some (Inr (Some (map Some p)))
            \<and> apply_moves [[1, 6, 2], [5, 0, 3], [4, 7, 8]] p = Some goal_board
            \<and> apply_moves [[1, 6, 2], [5, 0, 3], [4, 7, 8]] ms = Some goal_board
            \<and> length p = 10 \<and> length ms = 8"
    by blast
qed

theorem bfs_and_aStar_are_optimal_witness:
  "wf_board [[1, 2, 3], [4, 0, 6], [7, 5, 8]] \<and> solvable [[1, 2, 3], [4, 0, 6], [7, 5, 8]]
   \<and> bfs (root [[1, 2, 3], [4, 0, 6], [7, 5, 8]]) = Some (Inr (Some [Some (1, 0), Some (0, 1)]))
   \<and> aStar (root [[1, 2, 3], [4, 0, 6], [7, 5, 8]]) manhattanDistance
        = Some (Inr (Some [Some (1, 0), Some (0, 1)]))
   \<and> \<not> (\<exists>ms'. apply_moves [[1, 2, 3], [4, 0, 6], [7, 5, 8]] ms' = Some goal_board \<and> length ms' < 2)"
proof -
  let ?b = "[[1, 2, 3], [4, 0, 6], [7, 5, 8]] :: board"
  have w: "wf_board ?b" by (auto simp: wf_board_def grid3_def flat_def)
  have "apply_moves ?b [(1, 0), (0, 1)] = Some goal_board" by code_simp
  then have s: "solvable ?b" unfolding solvable_def by blast
  have 1: "bfs (root ?b) = Some (Inr (Some [Some (1, 0), Some (0, 1)]))" by code_simp
  have 2: "aStar (root ?b) manhattanDistance = Some (Inr (Some [Some (1, 0), Some (0, 1)]))"
    by code_simp
  from bfs_and_aStar_are_optimal[OF w s] obtain ms where
    ms: "bfs (root ?b) = Some (Inr (Some (map Some ms)))"
      "\<forall>ms'. apply_moves ?b ms' = Some goal_board \<longrightarrow> length ms \<le> length ms'"
    by blast
  from ms(1) 1 have "map Some ms = [Some (1, 0), Some (0, 1)]" by simp
  then have "length (map Some ms) = 2" by simp
  then have "length ms = 2" by simp
  with ms(2) have "\<not> (\<exists>ms'. apply_moves ?b ms' = Some goal_board \<and> length ms' < 2)"
    by (auto simp: not_less)
  with w s 1 2 show ?thesis by simp
qed

subsection \<open>What an informed iteration puts into the frontier\<close>

lemma mset_splice_in: "mset (splice_in xs i x) = add_mset x (mset xs)"
proof -
  have "mset (take (nat i) xs) + mset (drop (nat i) xs) = mset xs"
    by (metis append_take_drop_id mset_append)
  then show ?thesis by (simp add: splice_in_def)
qed

lemma mset_bestFirst_insert: "mset (bestFirst_insert n fr) = add_mset n (mset fr)"
  by (simp add: bestFirst_insert_def Let_def mset_splice_in)

lemma mset_aStar_insert: "mset (aStar_insert n fr) = add_mset n (mset fr)"
  by (simp add: aStar_insert_def Let_def mset_splice_in)

lemma bestFirst_visit_ids:
  assumes "bestFirst_visit heuristic ex ns fr = Inr fr'"
  shows "mset (map getId fr') = mset (map getId fr) + mset (map getId (filter (\<lambda>n. getId n \<notin> ex) ns))"
  using assms
proof (induction ns arbitrary: fr)
  case Nil
  then show ?case by simp
next
  case (Cons n ns)
  show ?case
  proof (cases "getId n \<in> ex")
    case True
    with Cons.prems have "bestFirst_visit heuristic ex ns fr = Inr fr'" by simp
    from Cons.IH[OF this] True show ?thesis by simp
  next
    case False
    with Cons.prems obtain v where
      r: "bestFirst_visit heuristic ex ns (bestFirst_insert (set_h v n) fr) = Inr fr'"
      by (auto split: sum.splits)
    have i: "getId (set_h v n) = getId n" by (rule same_core_getId) simp
    have "mset (map getId (bestFirst_insert (set_h v n) fr)) = add_mset (getId n) (mset (map getId fr))"
      using mset_bestFirst_insert[of "set_h v n" fr] i by (metis mset_map image_mset_add_mset)
    with Cons.IH[OF r] False show ?thesis by simp
  qed
qed

lemma aStar_visit_ids:
  assumes "aStar_visit heuristic ex ns fr = Inr fr'"
  shows "mset (map getId fr') = mset (map getId fr) + mset (map getId (filter (\<lambda>n. getId n \<notin> ex) ns))"
  using assms
proof (induction ns arbitrary: fr)
  case Nil
  then show ?case by simp
next
  case (Cons n ns)
  show ?case
  proof (cases "getId n \<in> ex")
    case True
    with Cons.prems have "aStar_visit heuristic ex ns fr = Inr fr'" by simp
    from Cons.IH[OF this] True show ?thesis by simp
  next
    case False
    with Cons.prems obtain v where
      r: "aStar_visit heuristic ex ns (aStar_insert (set_f (g n + v) (set_h v n)) fr) = Inr fr'"
      by (auto split: sum.splits)
    have "same_core (set_f (g n + v) (set_h v n)) n" by (simp add: same_core_def set_f_def set_h_def)
    then have i: "getId (set_f (g n + v) (set_h v n)) = getId n" by (rule same_core_getId)
    have "mset (map getId (aStar_insert (set_f (g n + v) (set_h v n)) fr))
        = add_mset (getId n) (mset (map getId fr))"
      using mset_aStar_insert[of "set_f (g n + v) (set_h v n)" fr] i
      by (metis mset_map image_mset_add_mset)
    with Cons.IH[OF r] False show ?thesis by simp
  qed
qed

lemma bestFirst_visit_keys:
  assumes "bestFirst_visit heuristic ex ns fr = Inr fr'"
  shows "\<forall>t \<in> set fr'. t \<in> set fr
           \<or> (\<exists>n \<in> set ns. getId n \<notin> ex \<and> same_core t n \<and> heuristic n = Inr (h t) \<and> f t = f n)"
  using assms
proof (induction ns arbitrary: fr)
  case Nil
  then show ?case by simp
next
  case (Cons n ns)
  show ?case
  proof (cases "getId n \<in> ex")
    case True
    with Cons.prems have "bestFirst_visit heuristic ex ns fr = Inr fr'" by simp
    from Cons.IH[OF this] show ?thesis by auto
  next
    case False
    with Cons.prems obtain v where v: "heuristic n = Inr v"
      and r: "bestFirst_visit heuristic ex ns (bestFirst_insert (set_h v n) fr) = Inr fr'"
      by (auto split: sum.splits)
    have k: "same_core (set_h v n) n \<and> heuristic n = Inr (h (set_h v n)) \<and> f (set_h v n) = f n"
      using v by (simp add: same_core_def set_h_def)
    show ?thesis
    proof
      fix t assume "t \<in> set fr'"
      with Cons.IH[OF r] consider "t \<in> set (bestFirst_insert (set_h v n) fr)"
        | "\<exists>n \<in> set ns. getId n \<notin> ex \<and> same_core t n \<and> heuristic n = Inr (h t) \<and> f t = f n"
        by blast
      then show "t \<in> set fr
           \<or> (\<exists>k \<in> set (n # ns). getId k \<notin> ex \<and> same_core t k \<and> heuristic k = Inr (h t) \<and> f t = f k)"
      proof cases
        case 1
        then have "t = set_h v n \<or> t \<in> set fr" by (simp add: set_bestFirst_insert)
        with k False show ?thesis by auto
      next
        case 2 then show ?thesis by auto
      qed
    qed
  qed
qed

lemma aStar_visit_keys:
  assumes "aStar_visit heuristic ex ns fr = Inr fr'"
  shows "\<forall>t \<in> set fr'. t \<in> set fr
           \<or> (\<exists>n \<in> set ns. getId n \<notin> ex \<and> same_core t n \<and> heuristic n = Inr (h t)
                 \<and> f t = g t + h t)"
  using assms
proof (induction ns arbitrary: fr)
  case Nil
  then show ?case by simp
next
  case (Cons n ns)
  show ?case
  proof (cases "getId n \<in> ex")
    case True
    with Cons.prems have "aStar_visit heuristic ex ns fr = Inr fr'" by simp
    from Cons.IH[OF this] show ?thesis by auto
  next
    case False
    with Cons.prems obtain v where v: "heuristic n = Inr v"
      and r: "aStar_visit heuristic ex ns (aStar_insert (set_f (g n + v) (set_h v n)) fr) = Inr fr'"
      by (auto split: sum.splits)
    define n' where "n' = set_f (g n + v) (set_h v n)"
    have k: "same_core n' n \<and> heuristic n = Inr (h n') \<and> f n' = g n' + h n'"
      using v by (simp add: n'_def same_core_def set_h_def set_f_def)
    show ?thesis
    proof
      fix t assume "t \<in> set fr'"
      with Cons.IH[OF r] consider "t \<in> set (aStar_insert n' fr)"
        | "\<exists>n \<in> set ns. getId n \<notin> ex \<and> same_core t n \<and> heuristic n = Inr (h t) \<and> f t = g t + h t"
        unfolding n'_def by blast
      then show "t \<in> set fr
           \<or> (\<exists>k \<in> set (n # ns). getId k \<notin> ex \<and> same_core t k \<and> heuristic k = Inr (h t)
                 \<and> f t = g t + h t)"
      proof cases
        case 1
        then have "t = n' \<or> t \<in> set fr" by (simp add: set_aStar_insert)
        with k False show ?thesis by auto
      next
        case 2 then show ?thesis by auto
      qed
    qed
  qed
qed

lemma bestFirst_body_inserts:
  assumes "bestFirst_body heuristic (s # rest, ex) = Continue (fr', ex')"
  shows "\<exists>ns. getNeighbors s = Inr ns \<and> \<not> isGoal s \<and> ex' = insert (getId s) ex
      \<and> mset (map getId fr')
          = mset (map getId rest) + mset (map getId (filter (\<lambda>n. getId n \<notin> ex') ns))
      \<and> (\<forall>t \<in> set fr'. t \<in> set rest
            \<or> (\<exists>n \<in> set ns. getId n \<notin> ex' \<and> same_core t n \<and> heuristic n = Inr (h t) \<and> f t = f n))"
proof -
  from assms have ng: "\<not> isGoal s" by (auto split: if_splits)
  with assms obtain ns where ns: "getNeighbors s = Inr ns"
    and v: "bestFirst_visit heuristic (insert (getId s) ex) ns rest = Inr fr'"
    and e: "ex' = insert (getId s) ex"
    by (auto simp: Let_def split: sum.splits)
  from bestFirst_visit_ids[OF v] bestFirst_visit_keys[OF v] ns ng e show ?thesis by simp
qed

lemma aStar_body_inserts:
  assumes "aStar_body heuristic (s # rest, ex) = Continue (fr', ex')"
  shows "\<exists>ns. getNeighbors s = Inr ns \<and> \<not> isGoal s \<and> ex' = insert (getId s) ex
      \<and> mset (map getId fr')
          = mset (map getId rest) + mset (map getId (filter (\<lambda>n. getId n \<notin> ex') ns))
      \<and> (\<forall>t \<in> set fr'. t \<in> set rest
            \<or> (\<exists>n \<in> set ns. getId n \<notin> ex' \<and> same_core t n \<and> heuristic n = Inr (h t)
                  \<and> f t = g t + h t))"
proof -
  from assms have ng: "\<not> isGoal s" by (auto split: if_splits)
  with assms obtain ns where ns: "getNeighbors s = Inr ns"
    and v: "aStar_visit heuristic (insert (getId s) ex) ns rest = Inr fr'"
    and e: "ex' = insert (getId s) ex"
    by (auto simp: Let_def split: sum.splits)
  from aStar_visit_ids[OF v] aStar_visit_keys[OF v] ns ng e show ?thesis by simp
qed

lemma bestFirst_steps_scored:
  assumes "steps (bestFirst_body heuristic) k ([s0], ex0) = Some c"
  shows "\<forall>t \<in> set (fst c). t = s0 \<or> scored_by heuristic t"
proof (rule steps_invariant[where I = "\<lambda>c. \<forall>t \<in> set (fst c). t = s0 \<or> scored_by heuristic t"
      and body = "bestFirst_body heuristic" and ?c0.0 = "([s0], ex0)" and n = k])
  show "\<forall>t \<in> set (fst ([s0], ex0)). t = s0 \<or> scored_by heuristic t" by simp
  show "steps (bestFirst_body heuristic) k ([s0], ex0) = Some c" by fact
next
  fix c c' assume I: "\<forall>t \<in> set (fst c). t = s0 \<or> scored_by heuristic t"
    and st: "bestFirst_body heuristic c = Continue c'"
  obtain fr ex where c: "c = (fr, ex)" by (cases c)
  obtain fr' ex' where c': "c' = (fr', ex')" by (cases c')
  from st c obtain s rest where fr: "fr = s # rest" by (cases fr) auto
  from bestFirst_body_inserts[of heuristic s rest ex fr' ex'] st c c' fr obtain ns where
    ns: "getNeighbors s = Inr ns"
    and o: "\<forall>t \<in> set fr'. t \<in> set rest
            \<or> (\<exists>n \<in> set ns. getId n \<notin> ex' \<and> same_core t n \<and> heuristic n = Inr (h t) \<and> f t = f n)"
    by auto
  show "\<forall>t \<in> set (fst c'). t = s0 \<or> scored_by heuristic t"
  proof
    fix t assume "t \<in> set (fst c')"
    with c' have "t \<in> set fr'" by simp
    with o consider "t \<in> set rest"
      | n where "n \<in> set ns" "same_core t n" "heuristic n = Inr (h t)" by blast
    then show "t = s0 \<or> scored_by heuristic t"
    proof cases
      case 1 with I c fr show ?thesis by simp
    next
      case 2
      with ns have "scored_by heuristic t" unfolding scored_by_def by blast
      then show ?thesis ..
    qed
  qed
qed

lemma aStar_steps_scored:
  assumes "steps (aStar_body heuristic) k ([s0], ex0) = Some c"
  shows "\<forall>t \<in> set (fst c). t = s0 \<or> (scored_by heuristic t \<and> f t = g t + h t)"
proof (rule steps_invariant[where
      I = "\<lambda>c. \<forall>t \<in> set (fst c). t = s0 \<or> (scored_by heuristic t \<and> f t = g t + h t)"
      and body = "aStar_body heuristic" and ?c0.0 = "([s0], ex0)" and n = k])
  show "\<forall>t \<in> set (fst ([s0], ex0)). t = s0 \<or> (scored_by heuristic t \<and> f t = g t + h t)" by simp
  show "steps (aStar_body heuristic) k ([s0], ex0) = Some c" by fact
next
  fix c c' assume I: "\<forall>t \<in> set (fst c). t = s0 \<or> (scored_by heuristic t \<and> f t = g t + h t)"
    and st: "aStar_body heuristic c = Continue c'"
  obtain fr ex where c: "c = (fr, ex)" by (cases c)
  obtain fr' ex' where c': "c' = (fr', ex')" by (cases c')
  from st c obtain s rest where fr: "fr = s # rest" by (cases fr) auto
  from aStar_body_inserts[of heuristic s rest ex fr' ex'] st c c' fr obtain ns where
    ns: "getNeighbors s = Inr ns"
    and o: "\<forall>t \<in> set fr'. t \<in> set rest
            \<or> (\<exists>n \<in> set ns. getId n \<notin> ex' \<and> same_core t n \<and> heuristic n = Inr (h t)
                  \<and> f t = g t + h t)"
    by auto
  show "\<forall>t \<in> set (fst c'). t = s0 \<or> (scored_by heuristic t \<and> f t = g t + h t)"
  proof
    fix t assume "t \<in> set (fst c')"
    with c' have "t \<in> set fr'" by simp
    with o consider "t \<in> set rest"
      | n where "n \<in> set ns" "same_core t n" "heuristic n = Inr (h t)" "f t = g t + h t" by blast
    then show "t = s0 \<or> (scored_by heuristic t \<and> f t = g t + h t)"
    proof cases
      case 1 with I c fr show ?thesis by simp
    next
      case 2
      with ns have "scored_by heuristic t" unfolding scored_by_def by blast
      with 2(4) show ?thesis by simp
    qed
  qed
qed

subsection \<open>The order of the frontier\<close>


lemma case_config_SomeD:
  assumes "case x of Some (s # rest, ex) \<Rightarrow> P s rest ex | _ \<Rightarrow> False"
  shows "\<exists>s rest ex. x = Some (s # rest, ex) \<and> P s rest ex"
  using assms by (auto split: option.splits prod.splits list.splits)

lemma case_ContinueD:
  assumes "case y of Continue (fr, ex) \<Rightarrow> Q fr ex | Return r \<Rightarrow> False"
  shows "\<exists>fr ex. y = Continue (fr, ex) \<and> Q fr ex"
  using assms by (auto split: iter.splits prod.splits)

lemma case_InrD:
  assumes "case z of Inr ns \<Rightarrow> R ns | Inl e \<Rightarrow> False"
  shows "\<exists>ns. z = Inr ns \<and> R ns"
  using assms by (auto split: sum.splits)




subsection \<open>Duplicate boards in the frontier\<close>

lemma duplicate_ids_core:
  "(\<forall>k fr ex. steps bfs_body k ([s0], {}) = Some (fr, ex) \<longrightarrow> distinct (map getId fr))
   \<and> (\<forall>k s rest ex ns fr' ex'.
         steps bfs_body k ([s0], {}) = Some (s # rest, ex)
         \<and> bfs_visit ns (rest, insert (getId s) ex) = (fr', ex')
         \<longrightarrow> distinct (map getId fr') \<and> getId ` set fr' \<subseteq> ex')
   \<and> (\<forall>fr ex fr' ex'. bestFirst_body heuristic (fr, ex) = Continue (fr', ex')
         \<longrightarrow> fr \<noteq> [] \<and> ex' = insert (getId (hd fr)) ex)
   \<and> (\<forall>fr ex fr' ex'. aStar_body heuristic (fr, ex) = Continue (fr', ex')
         \<longrightarrow> fr \<noteq> [] \<and> ex' = insert (getId (hd fr)) ex)
   \<and> (\<exists>fr ex. steps (bestFirst_body hammingDistance) 12 ([root [[6, 2, 3], [4, 1, 8], [0, 5, 7]]], {})
           = Some (fr, ex) \<and> \<not> distinct (map getId fr))
   \<and> (\<exists>fr ex. steps (aStar_body manhattanDistance) 11 ([root [[1, 2, 3], [4, 0, 8], [7, 6, 5]]], {})
           = Some (fr, ex) \<and> \<not> distinct (map getId fr))"
proof (intro conjI allI impI)
  fix k fr ex assume "steps bfs_body k ([s0], {}) = Some (fr, ex)"
  from bfs_steps_distinct[OF this] show "distinct (map getId fr)" by simp
next
  fix k s rest ex ns fr' ex'
  assume a: "steps bfs_body k ([s0], {}) = Some (s # rest, ex)
         \<and> bfs_visit ns (rest, insert (getId s) ex) = (fr', ex')"
  from bfs_points_distinct[of k s0 s rest ex ns fr' ex'] a
  show "distinct (map getId fr')" "getId ` set fr' \<subseteq> ex'" by blast+
next
  fix fr ex fr' ex' assume a: "bestFirst_body heuristic (fr, ex) = Continue (fr', ex')"
  from bestFirst_body_explored[OF a] show "fr \<noteq> []" "ex' = insert (getId (hd fr)) ex" by blast+
next
  fix fr ex fr' ex' assume a: "aStar_body heuristic (fr, ex) = Continue (fr', ex')"
  from aStar_body_explored[OF a] show "fr \<noteq> []" "ex' = insert (getId (hd fr)) ex" by blast+
next
  from bestFirst_duplicate_run
  show "\<exists>fr ex. steps (bestFirst_body hammingDistance) 12 ([root [[6, 2, 3], [4, 1, 8], [0, 5, 7]]], {})
           = Some (fr, ex) \<and> \<not> distinct (map getId fr)"
    by (auto split: option.splits)
next
  from aStar_duplicate_run
  show "\<exists>fr ex. steps (aStar_body manhattanDistance) 11 ([root [[1, 2, 3], [4, 0, 8], [7, 6, 5]]], {})
           = Some (fr, ex) \<and> \<not> distinct (map getId fr)"
    by (auto split: option.splits)
qed

text \<open>
  C5. In a run of \<^verbatim>\<open>bfs\<close> from any initial state, at the head of every
  iteration and after every neighbour processed by the \<^verbatim>\<open>for\<close> loop, the ids of
  the frontier states are pairwise different, and every state pushed by the loop has its
  id in the explored set. An iteration of \<^verbatim>\<open>bestFirstSearch\<close> or
  \<^verbatim>\<open>aStar\<close> adds exactly the id of the state it removed from the frontier to
  the explored set, and it filters the successors of that state by membership of their id
  in the explored set and by nothing else: the ids of the new frontier are, with their
  multiplicities, those of the rest of the old frontier and those of the successors whose
  id is not explored; a successor whose id is already in the frontier is inserted again.
  There are runs of both searches in which the frontier holds two states with the same id.
\<close>

theorem frontier_duplicates:
  "(\<forall>k fr ex. steps bfs_body k ([s0], {}) = Some (fr, ex) \<longrightarrow> distinct (map getId fr))
   \<and> (\<forall>k s rest ex ns fr' ex'.
         steps bfs_body k ([s0], {}) = Some (s # rest, ex)
         \<and> bfs_visit ns (rest, insert (getId s) ex) = (fr', ex')
         \<longrightarrow> distinct (map getId fr') \<and> getId ` set fr' \<subseteq> ex')
   \<and> (\<forall>fr ex fr' ex'. bestFirst_body heuristic (fr, ex) = Continue (fr', ex')
         \<longrightarrow> fr \<noteq> [] \<and> ex' = insert (getId (hd fr)) ex)
   \<and> (\<forall>fr ex fr' ex'. aStar_body heuristic (fr, ex) = Continue (fr', ex')
         \<longrightarrow> fr \<noteq> [] \<and> ex' = insert (getId (hd fr)) ex)
   \<and> (\<exists>fr ex. steps (bestFirst_body hammingDistance) 12 ([root [[6, 2, 3], [4, 1, 8], [0, 5, 7]]], {})
           = Some (fr, ex) \<and> \<not> distinct (map getId fr))
   \<and> (\<exists>fr ex. steps (aStar_body manhattanDistance) 11 ([root [[1, 2, 3], [4, 0, 8], [7, 6, 5]]], {})
           = Some (fr, ex) \<and> \<not> distinct (map getId fr))
   \<and> (\<forall>s rest ex fr' ex'. bestFirst_body heuristic (s # rest, ex) = Continue (fr', ex') \<longrightarrow>
         (\<exists>ns. getNeighbors s = Inr ns \<and> ex' = insert (getId s) ex
            \<and> mset (map getId fr')
                = mset (map getId rest) + mset (map getId (filter (\<lambda>n. getId n \<notin> insert (getId s) ex) ns))))
   \<and> (\<forall>s rest ex fr' ex'. aStar_body heuristic (s # rest, ex) = Continue (fr', ex') \<longrightarrow>
         (\<exists>ns. getNeighbors s = Inr ns \<and> ex' = insert (getId s) ex
            \<and> mset (map getId fr')
                = mset (map getId rest) + mset (map getId (filter (\<lambda>n. getId n \<notin> insert (getId s) ex) ns))))"
proof -
  have 1: "\<forall>s rest ex fr' ex'. bestFirst_body heuristic (s # rest, ex) = Continue (fr', ex') \<longrightarrow>
         (\<exists>ns. getNeighbors s = Inr ns \<and> ex' = insert (getId s) ex
            \<and> mset (map getId fr')
                = mset (map getId rest) + mset (map getId (filter (\<lambda>n. getId n \<notin> insert (getId s) ex) ns)))"
  proof (intro allI impI)
    fix s rest ex fr' ex' assume "bestFirst_body heuristic (s # rest, ex) = Continue (fr', ex')"
    from bestFirst_body_inserts[OF this] obtain ns where ns: "getNeighbors s = Inr ns"
      and e: "ex' = insert (getId s) ex"
      and m: "mset (map getId fr')
           = mset (map getId rest) + mset (map getId (filter (\<lambda>n. getId n \<notin> ex') ns))"
      by blast
    from ns e m show "\<exists>ns. getNeighbors s = Inr ns \<and> ex' = insert (getId s) ex
            \<and> mset (map getId fr')
                = mset (map getId rest) + mset (map getId (filter (\<lambda>n. getId n \<notin> insert (getId s) ex) ns))"
      by blast
  qed
  have 2: "\<forall>s rest ex fr' ex'. aStar_body heuristic (s # rest, ex) = Continue (fr', ex') \<longrightarrow>
         (\<exists>ns. getNeighbors s = Inr ns \<and> ex' = insert (getId s) ex
            \<and> mset (map getId fr')
                = mset (map getId rest) + mset (map getId (filter (\<lambda>n. getId n \<notin> insert (getId s) ex) ns)))"
  proof (intro allI impI)
    fix s rest ex fr' ex' assume "aStar_body heuristic (s # rest, ex) = Continue (fr', ex')"
    from aStar_body_inserts[OF this] obtain ns where ns: "getNeighbors s = Inr ns"
      and e: "ex' = insert (getId s) ex"
      and m: "mset (map getId fr')
           = mset (map getId rest) + mset (map getId (filter (\<lambda>n. getId n \<notin> ex') ns))"
      by blast
    from ns e m show "\<exists>ns. getNeighbors s = Inr ns \<and> ex' = insert (getId s) ex
            \<and> mset (map getId fr')
                = mset (map getId rest) + mset (map getId (filter (\<lambda>n. getId n \<notin> insert (getId s) ex) ns))"
      by blast
  qed
  from duplicate_ids_core[of s0 heuristic] 1 2 show ?thesis
    by (intro conjI) (elim conjE, assumption)+
qed

theorem frontier_duplicates_witness:
  "(\<exists>fr ex. steps bfs_body 1 ([root [[1, 2, 3], [4, 0, 5], [7, 8, 6]]], {}) = Some (fr, ex)
        \<and> length fr = 4 \<and> distinct (map getId fr) \<and> getId ` set fr \<subseteq> ex)
   \<and> (\<exists>fr ex. bestFirst_body hammingDistance ([root [[1, 2, 3], [4, 0, 5], [7, 8, 6]]], {}) = Continue (fr, ex)
        \<and> ex = {getId (root [[1, 2, 3], [4, 0, 5], [7, 8, 6]])})
   \<and> (\<exists>fr ex. aStar_body hammingDistance ([root [[1, 2, 3], [4, 0, 5], [7, 8, 6]]], {}) = Continue (fr, ex)
        \<and> ex = {getId (root [[1, 2, 3], [4, 0, 5], [7, 8, 6]])})
   \<and> (\<exists>s rest ex fr' ex' ns.
         steps (bestFirst_body hammingDistance) 1 ([root [[1, 2, 3], [4, 0, 5], [7, 8, 6]]], {})
           = Some (s # rest, ex)
         \<and> bestFirst_body hammingDistance (s # rest, ex) = Continue (fr', ex')
         \<and> getNeighbors s = Inr ns \<and> length ns = 3 \<and> length rest = 3 \<and> length fr' = 5
         \<and> ex' = insert (getId s) ex
         \<and> mset (map getId fr')
             = mset (map getId rest) + mset (map getId (filter (\<lambda>n. getId n \<notin> insert (getId s) ex) ns)))
   \<and> (\<exists>s rest ex fr' ex' ns.
         steps (aStar_body hammingDistance) 1 ([root [[1, 2, 3], [4, 0, 5], [7, 8, 6]]], {})
           = Some (s # rest, ex)
         \<and> aStar_body hammingDistance (s # rest, ex) = Continue (fr', ex')
         \<and> getNeighbors s = Inr ns \<and> length ns = 3 \<and> length rest = 3 \<and> length fr' = 5
         \<and> ex' = insert (getId s) ex
         \<and> mset (map getId fr')
             = mset (map getId rest) + mset (map getId (filter (\<lambda>n. getId n \<notin> insert (getId s) ex) ns)))"
proof -
  let ?s = "root [[1, 2, 3], [4, 0, 5], [7, 8, 6]]"
  note T = frontier_duplicates[of ?s hammingDistance]
  have "case getNeighbors ?s of Inl e \<Rightarrow> False | Inr ns \<Rightarrow> \<not> isGoal ?s \<and>
          (case bfs_visit ns ([], insert (getId ?s) {}) of (fr, ex) \<Rightarrow> length fr = 4)"
    by code_simp
  then obtain ns fr ex where ns: "getNeighbors ?s = Inr ns" "\<not> isGoal ?s"
    and v: "bfs_visit ns ([], insert (getId ?s) {}) = (fr, ex)" and l: "length fr = 4"
    by (auto split: sum.splits prod.splits)
  have s0: "steps bfs_body 0 ([?s], {}) = Some (?s # [], {})" by simp
  from T have H2: "\<forall>k s rest ex ns fr' ex'.
         steps bfs_body k ([?s], {}) = Some (s # rest, ex)
         \<and> bfs_visit ns (rest, insert (getId s) ex) = (fr', ex')
         \<longrightarrow> distinct (map getId fr') \<and> getId ` set fr' \<subseteq> ex'"
    by - (elim conjE, assumption)
  from H2 s0 v have d: "distinct (map getId fr)" "getId ` set fr \<subseteq> ex" by blast+
  from T have H3: "\<forall>fr ex fr' ex'. bestFirst_body hammingDistance (fr, ex) = Continue (fr', ex')
         \<longrightarrow> fr \<noteq> [] \<and> ex' = insert (getId (hd fr)) ex"
    by - (elim conjE, assumption)
  from T have H4: "\<forall>fr ex fr' ex'. aStar_body hammingDistance (fr, ex) = Continue (fr', ex')
         \<longrightarrow> fr \<noteq> [] \<and> ex' = insert (getId (hd fr)) ex"
    by - (elim conjE, assumption)
  from T have H7: "\<forall>s rest ex fr' ex'. bestFirst_body hammingDistance (s # rest, ex) = Continue (fr', ex') \<longrightarrow>
         (\<exists>ns. getNeighbors s = Inr ns \<and> ex' = insert (getId s) ex
            \<and> mset (map getId fr')
                = mset (map getId rest) + mset (map getId (filter (\<lambda>n. getId n \<notin> insert (getId s) ex) ns)))"
    by - (elim conjE, assumption)
  from T have H8: "\<forall>s rest ex fr' ex'. aStar_body hammingDistance (s # rest, ex) = Continue (fr', ex') \<longrightarrow>
         (\<exists>ns. getNeighbors s = Inr ns \<and> ex' = insert (getId s) ex
            \<and> mset (map getId fr')
                = mset (map getId rest) + mset (map getId (filter (\<lambda>n. getId n \<notin> insert (getId s) ex) ns)))"
    by - (elim conjE, assumption)
  from ns v have s1: "steps bfs_body 1 ([?s], {}) = Some (fr, ex)" by simp
  have "case bestFirst_body hammingDistance ([?s], {}) of Continue c \<Rightarrow> True | Return r \<Rightarrow> False"
    by code_simp
  then obtain fr1 ex1 where b: "bestFirst_body hammingDistance ([?s], {}) = Continue (fr1, ex1)"
    by (auto split: iter.splits)
  from H3 b have "ex1 = insert (getId (hd [?s])) {}" by blast
  then have b': "ex1 = {getId ?s}" by simp
  have "case aStar_body hammingDistance ([?s], {}) of Continue c \<Rightarrow> True | Return r \<Rightarrow> False"
    by code_simp
  then obtain fr2 ex2 where a: "aStar_body hammingDistance ([?s], {}) = Continue (fr2, ex2)"
    by (auto split: iter.splits)
  from H4 a have "ex2 = insert (getId (hd [?s])) {}" by blast
  then have a': "ex2 = {getId ?s}" by simp
  have "case steps (bestFirst_body hammingDistance) 1 ([?s], {}) of
          Some (s # rest, ex) \<Rightarrow>
            (case bestFirst_body hammingDistance (s # rest, ex) of
               Continue (fr', ex') \<Rightarrow>
                 (case getNeighbors s of Inr ns \<Rightarrow> length ns = 3 \<and> length rest = 3 \<and> length fr' = 5
                  | Inl e \<Rightarrow> False)
             | Return r \<Rightarrow> False)
        | _ \<Rightarrow> False"
    by code_simp
  from case_config_SomeD[OF this] obtain s3 rest3 ex3 where
    q3_1: "steps (bestFirst_body hammingDistance) 1 ([?s], {}) = Some (s3 # rest3, ex3)"
    and e3_1: "case bestFirst_body hammingDistance (s3 # rest3, ex3) of
               Continue (fr', ex') \<Rightarrow>
                 (case getNeighbors s3 of Inr ns \<Rightarrow> length ns = 3 \<and> length rest3 = 3 \<and> length fr' = 5
                  | Inl e \<Rightarrow> False)
             | Return r \<Rightarrow> False"
    by blast
  from case_ContinueD[OF e3_1] obtain fr3 ex3' where
    q3_2: "bestFirst_body hammingDistance (s3 # rest3, ex3) = Continue (fr3, ex3')"
    and e3_2: "case getNeighbors s3 of Inr ns \<Rightarrow> length ns = 3 \<and> length rest3 = 3 \<and> length fr3 = 5
                  | Inl e \<Rightarrow> False"
    by blast
  from case_InrD[OF e3_2] obtain ns3 where
    q3_3: "getNeighbors s3 = Inr ns3" "length ns3 = 3" "length rest3 = 3" "length fr3 = 5"
    by blast
  note p = q3_1 q3_2 q3_3
  from H7 p(2) obtain ns3' where "getNeighbors s3 = Inr ns3'" "ex3' = insert (getId s3) ex3"
    "mset (map getId fr3)
       = mset (map getId rest3) + mset (map getId (filter (\<lambda>n. getId n \<notin> insert (getId s3) ex3) ns3'))"
    by blast
  with p(3) have q: "ex3' = insert (getId s3) ex3"
    "mset (map getId fr3)
       = mset (map getId rest3) + mset (map getId (filter (\<lambda>n. getId n \<notin> insert (getId s3) ex3) ns3))"
    by simp_all
  have "case steps (aStar_body hammingDistance) 1 ([?s], {}) of
          Some (s # rest, ex) \<Rightarrow>
            (case aStar_body hammingDistance (s # rest, ex) of
               Continue (fr', ex') \<Rightarrow>
                 (case getNeighbors s of Inr ns \<Rightarrow> length ns = 3 \<and> length rest = 3 \<and> length fr' = 5
                  | Inl e \<Rightarrow> False)
             | Return r \<Rightarrow> False)
        | _ \<Rightarrow> False"
    by code_simp
  from case_config_SomeD[OF this] obtain s4 rest4 ex4 where
    q4_1: "steps (aStar_body hammingDistance) 1 ([?s], {}) = Some (s4 # rest4, ex4)"
    and e4_1: "case aStar_body hammingDistance (s4 # rest4, ex4) of
               Continue (fr', ex') \<Rightarrow>
                 (case getNeighbors s4 of Inr ns \<Rightarrow> length ns = 3 \<and> length rest4 = 3 \<and> length fr' = 5
                  | Inl e \<Rightarrow> False)
             | Return r \<Rightarrow> False"
    by blast
  from case_ContinueD[OF e4_1] obtain fr4 ex4' where
    q4_2: "aStar_body hammingDistance (s4 # rest4, ex4) = Continue (fr4, ex4')"
    and e4_2: "case getNeighbors s4 of Inr ns \<Rightarrow> length ns = 3 \<and> length rest4 = 3 \<and> length fr4 = 5
                  | Inl e \<Rightarrow> False"
    by blast
  from case_InrD[OF e4_2] obtain ns4 where
    q4_3: "getNeighbors s4 = Inr ns4" "length ns4 = 3" "length rest4 = 3" "length fr4 = 5"
    by blast
  note p4 = q4_1 q4_2 q4_3
  from H8 p4(2) obtain ns4' where "getNeighbors s4 = Inr ns4'" "ex4' = insert (getId s4) ex4"
    "mset (map getId fr4)
       = mset (map getId rest4) + mset (map getId (filter (\<lambda>n. getId n \<notin> insert (getId s4) ex4) ns4'))"
    by blast
  with p4(3) have q4: "ex4' = insert (getId s4) ex4"
    "mset (map getId fr4)
       = mset (map getId rest4) + mset (map getId (filter (\<lambda>n. getId n \<notin> insert (getId s4) ex4) ns4))"
    by simp_all
  have A: "\<exists>fr ex. steps bfs_body 1 ([?s], {}) = Some (fr, ex)
        \<and> length fr = 4 \<and> distinct (map getId fr) \<and> getId ` set fr \<subseteq> ex"
    using s1 l d by blast
  have B: "\<exists>fr ex. bestFirst_body hammingDistance ([?s], {}) = Continue (fr, ex) \<and> ex = {getId ?s}"
    using b b' by blast
  have C: "\<exists>fr ex. aStar_body hammingDistance ([?s], {}) = Continue (fr, ex) \<and> ex = {getId ?s}"
    using a a' by blast
  have D: "\<exists>s rest ex fr' ex' ns.
         steps (bestFirst_body hammingDistance) 1 ([?s], {}) = Some (s # rest, ex)
         \<and> bestFirst_body hammingDistance (s # rest, ex) = Continue (fr', ex')
         \<and> getNeighbors s = Inr ns \<and> length ns = 3 \<and> length rest = 3 \<and> length fr' = 5
         \<and> ex' = insert (getId s) ex
         \<and> mset (map getId fr')
             = mset (map getId rest) + mset (map getId (filter (\<lambda>n. getId n \<notin> insert (getId s) ex) ns))"
    using p q by blast
  have E: "\<exists>s rest ex fr' ex' ns.
         steps (aStar_body hammingDistance) 1 ([?s], {}) = Some (s # rest, ex)
         \<and> aStar_body hammingDistance (s # rest, ex) = Continue (fr', ex')
         \<and> getNeighbors s = Inr ns \<and> length ns = 3 \<and> length rest = 3 \<and> length fr' = 5
         \<and> ex' = insert (getId s) ex
         \<and> mset (map getId fr')
             = mset (map getId rest) + mset (map getId (filter (\<lambda>n. getId n \<notin> insert (getId s) ex) ns))"
    using p4 q4 by blast
  from A B C D E show ?thesis by (intro conjI) ((elim conjE)?, assumption)+
qed

subsection \<open>The heuristic value zero\<close>

lemma informed_frontier_valid:
  assumes wf: "wf_board b0"
    and st: "steps (bestFirst_body heuristic) k ([root b0], {}) = Some (fr, ex)
           \<or> steps (aStar_body heuristic) k ([root b0], {}) = Some (fr, ex)"
    and t: "t \<in> set fr"
  shows "wf_board (board t)"
proof -
  have inv: "search_inv b0 (fr, ex)"
    using st
  proof
    assume a: "steps (bestFirst_body heuristic) k ([root b0], {}) = Some (fr, ex)"
    show ?thesis
    proof (rule steps_invariant[where I = "search_inv b0" and body = "bestFirst_body heuristic"
          and ?c0.0 = "([root b0], {})" and n = k])
      show "search_inv b0 ([root b0], {})" by (rule search_inv_init)
      show "steps (bestFirst_body heuristic) k ([root b0], {}) = Some (fr, ex)" by (rule a)
    next
      fix c c' assume "search_inv b0 c" "bestFirst_body heuristic c = Continue c'"
      then show "search_inv b0 c'" using search_inv_step[OF wf] bestFirst_body_step by blast
    qed
  next
    assume a: "steps (aStar_body heuristic) k ([root b0], {}) = Some (fr, ex)"
    show ?thesis
    proof (rule steps_invariant[where I = "search_inv b0" and body = "aStar_body heuristic"
          and ?c0.0 = "([root b0], {})" and n = k])
      show "search_inv b0 ([root b0], {})" by (rule search_inv_init)
      show "steps (aStar_body heuristic) k ([root b0], {}) = Some (fr, ex)" by (rule a)
    next
      fix c c' assume "search_inv b0 c" "aStar_body heuristic c = Continue c'"
      then show "search_inv b0 c'" using search_inv_step[OF wf] aStar_body_step by blast
    qed
  qed
  from search_inv_parts(1)[OF inv] t have "valid_state b0 t" by blast
  from valid_state_wf[OF wf this] show ?thesis .
qed

lemma informed_frontier_scored:
  assumes st: "steps (bestFirst_body heuristic) k ([s0], {}) = Some (fr, ex)
           \<or> steps (aStar_body heuristic) k ([s0], {}) = Some (fr, ex)"
    and t: "t \<in> set fr" "t \<noteq> s0"
  shows "scored_by heuristic t"
  using st
proof
  assume "steps (bestFirst_body heuristic) k ([s0], {}) = Some (fr, ex)"
  from bestFirst_steps_scored[OF this] t show ?thesis by auto
next
  assume "steps (aStar_body heuristic) k ([s0], {}) = Some (fr, ex)"
  from aStar_steps_scored[OF this] t show ?thesis by auto
qed

lemma scored_zero_goal:
  assumes hm: "heuristic = hammingDistance \<or> heuristic = manhattanDistance"
    and wf: "wf_board (board t)" and sc: "scored_by heuristic t"
  shows "heuristic t = Inr (h t) \<and> (h t = 0 \<longleftrightarrow> isGoal t) \<and> (h t = 0 \<longleftrightarrow> board t = goal_board)"
proof -
  from sc obtain n where n: "same_core t n" "heuristic n = Inr (h t)"
    unfolding scored_by_def by blast
  from n(1) have b: "board n = board t" by (simp add: same_core_def)
  from wf have gr: "grid3 (board t)" by (simp add: wf_board_def)
  from wf b have wn: "wf_board (board n)" by simp
  from gr b have gn: "grid3 (board n)" by simp
  from hm have v: "heuristic t = Inr (h t) \<and> (h t = 0 \<longleftrightarrow> placed (board t))"
  proof
    assume e: "heuristic = hammingDistance"
    from n(2) hamming_spec[OF gn] b e have "h t = spec_hamming (board t)" by simp
    with hamming_spec[OF gr] e spec_hamming_zero show ?thesis by simp
  next
    assume e: "heuristic = manhattanDistance"
    from n(2) manhattan_spec[OF wn] b e have "h t = spec_manhattan (board t)" by simp
    with manhattan_spec[OF wf] e spec_manhattan_zero show ?thesis by simp
  qed
  with placed_goal[OF wf] isGoal_iff[OF wf] show ?thesis by simp
qed

text \<open>
  C10. On a well-formed board each heuristic is zero exactly on the goal board, which is
  exactly where \<^verbatim>\<open>isGoal\<close> holds. In a run of \<^verbatim>\<open>bestFirstSearch\<close> or
  \<^verbatim>\<open>aStar\<close> with one of the two heuristics from a well-formed board, every
  frontier state other than the initial one (whose \<open>h\<close> no search assigns) was given
  the value of the heuristic on its own board as \<open>h\<close>; so such a state has \<open>h = 0\<close>
  exactly if it is a goal state.
\<close>

theorem heuristic_zero_iff_goal:
  assumes "wf_board (board s)"
  shows "(hammingDistance s = Inr 0 \<longleftrightarrow> board s = goal_board)
       \<and> (manhattanDistance s = Inr 0 \<longleftrightarrow> board s = goal_board)
       \<and> (isGoal s \<longleftrightarrow> board s = goal_board)
       \<and> (\<forall>heuristic k fr ex t.
             (heuristic = hammingDistance \<or> heuristic = manhattanDistance)
             \<and> (steps (bestFirst_body heuristic) k ([root (board s)], {}) = Some (fr, ex)
                \<or> steps (aStar_body heuristic) k ([root (board s)], {}) = Some (fr, ex))
             \<and> t \<in> set fr \<and> t \<noteq> root (board s)
             \<longrightarrow> scored_by heuristic t \<and> heuristic t = Inr (h t)
                 \<and> (h t = 0 \<longleftrightarrow> isGoal t) \<and> (h t = 0 \<longleftrightarrow> board t = goal_board))"
proof -
  from assms have gr: "grid3 (board s)" by (simp add: wf_board_def)
  have 1: "(hammingDistance s = Inr 0 \<longleftrightarrow> board s = goal_board)
       \<and> (manhattanDistance s = Inr 0 \<longleftrightarrow> board s = goal_board)
       \<and> (isGoal s \<longleftrightarrow> board s = goal_board)"
    unfolding hamming_spec[OF gr] manhattan_spec[OF assms] isGoal_iff[OF assms]
    using spec_hamming_zero spec_manhattan_zero placed_goal[OF assms] by simp
  have 2: "\<forall>heuristic k fr ex t.
             (heuristic = hammingDistance \<or> heuristic = manhattanDistance)
             \<and> (steps (bestFirst_body heuristic) k ([root (board s)], {}) = Some (fr, ex)
                \<or> steps (aStar_body heuristic) k ([root (board s)], {}) = Some (fr, ex))
             \<and> t \<in> set fr \<and> t \<noteq> root (board s)
             \<longrightarrow> scored_by heuristic t \<and> heuristic t = Inr (h t)
                 \<and> (h t = 0 \<longleftrightarrow> isGoal t) \<and> (h t = 0 \<longleftrightarrow> board t = goal_board)"
  proof (intro allI impI, elim conjE)
    fix heuristic :: "PuzzleState \<Rightarrow> error + int" and k fr ex t
    assume hm: "heuristic = hammingDistance \<or> heuristic = manhattanDistance"
      and st: "steps (bestFirst_body heuristic) k ([root (board s)], {}) = Some (fr, ex)
                \<or> steps (aStar_body heuristic) k ([root (board s)], {}) = Some (fr, ex)"
      and t: "t \<in> set fr" "t \<noteq> root (board s)"
    from informed_frontier_valid[OF assms st t(1)] have wt: "wf_board (board t)" .
    from informed_frontier_scored[OF st t] have sc: "scored_by heuristic t" .
    from scored_zero_goal[OF hm wt sc] sc
    show "scored_by heuristic t \<and> heuristic t = Inr (h t)
                 \<and> (h t = 0 \<longleftrightarrow> isGoal t) \<and> (h t = 0 \<longleftrightarrow> board t = goal_board)"
      by blast
  qed
  from 1 2 show ?thesis by (intro conjI) (elim conjE, assumption)+
qed

theorem heuristic_zero_iff_goal_witness:
  "wf_board (board (root goal_board))
   \<and> hammingDistance (root goal_board) = Inr 0
   \<and> manhattanDistance (root goal_board) = Inr 0
   \<and> isGoal (root goal_board)
   \<and> wf_board (board (root [[1, 2, 3], [4, 0, 5], [7, 8, 6]]))
   \<and> \<not> isGoal (root [[1, 2, 3], [4, 0, 5], [7, 8, 6]])
   \<and> (\<exists>t u fr ex.
         steps (bestFirst_body hammingDistance) 2 ([root [[1, 2, 3], [4, 0, 5], [7, 8, 6]]], {})
           = Some (t # u # fr, ex)
         \<and> h t = 0 \<and> isGoal t \<and> board t = goal_board \<and> hammingDistance t = Inr 0
         \<and> h u = 2 \<and> \<not> isGoal u \<and> hammingDistance u = Inr 2)
   \<and> (\<exists>t u fr ex.
         steps (aStar_body manhattanDistance) 2 ([root [[1, 2, 3], [4, 0, 5], [7, 8, 6]]], {})
           = Some (t # u # fr, ex)
         \<and> h t = 0 \<and> isGoal t \<and> board t = goal_board \<and> manhattanDistance t = Inr 0
         \<and> h u = 3 \<and> \<not> isGoal u \<and> manhattanDistance u = Inr 3)"
proof -
  let ?b = "[[1, 2, 3], [4, 0, 5], [7, 8, 6]] :: board"
  have b: "board (root goal_board) = goal_board" by simp
  have w: "wf_board (board (root goal_board))" unfolding b by (rule wf_goal_board)
  from heuristic_zero_iff_goal[OF w] w b have A: "wf_board (board (root goal_board))
   \<and> hammingDistance (root goal_board) = Inr 0
   \<and> manhattanDistance (root goal_board) = Inr 0
   \<and> isGoal (root goal_board)" by simp
  have w2: "wf_board (board (root ?b))" by (auto simp: wf_board_def grid3_def flat_def)
  note T = heuristic_zero_iff_goal[OF w2]
  from T have ng: "\<not> isGoal (root ?b)" by (simp add: goal_board_def)
  from T have U: "\<forall>heuristic k fr ex t.
             (heuristic = hammingDistance \<or> heuristic = manhattanDistance)
             \<and> (steps (bestFirst_body heuristic) k ([root (board (root ?b))], {}) = Some (fr, ex)
                \<or> steps (aStar_body heuristic) k ([root (board (root ?b))], {}) = Some (fr, ex))
             \<and> t \<in> set fr \<and> t \<noteq> root (board (root ?b))
             \<longrightarrow> scored_by heuristic t \<and> heuristic t = Inr (h t)
                 \<and> (h t = 0 \<longleftrightarrow> isGoal t) \<and> (h t = 0 \<longleftrightarrow> board t = goal_board)"
    by - (elim conjE, assumption)
  have "case steps (bestFirst_body hammingDistance) 2 ([root ?b], {}) of
          Some (t # u # fr, ex) \<Rightarrow> h t = 0 \<and> g t = 2 \<and> h u = 2 \<and> g u = 2 | _ \<Rightarrow> False"
    by code_simp
  then obtain t u fr ex where
    r: "steps (bestFirst_body hammingDistance) 2 ([root ?b], {}) = Some (t # u # fr, ex)"
    and v: "h t = 0" "g t = 2" "h u = 2" "g u = 2"
    by (auto split: option.splits prod.splits list.splits)
  from v have ne: "t \<noteq> root ?b" "u \<noteq> root ?b" by auto
  have pt: "scored_by hammingDistance t \<and> hammingDistance t = Inr (h t) \<and> (h t = 0 \<longleftrightarrow> isGoal t)
      \<and> (h t = 0 \<longleftrightarrow> board t = goal_board)"
    by (rule U[rule_format, where heuristic = hammingDistance and k = 2 and fr = "t # u # fr" and ex = "ex" and t = "t"]) (simp add: r ne(1))
  have pu: "scored_by hammingDistance u \<and> hammingDistance u = Inr (h u) \<and> (h u = 0 \<longleftrightarrow> isGoal u)
      \<and> (h u = 0 \<longleftrightarrow> board u = goal_board)"
    by (rule U[rule_format, where heuristic = hammingDistance and k = 2 and fr = "t # u # fr" and ex = "ex" and t = "u"]) (simp add: r ne(2))
  from pt v(1) have gt: "isGoal t" "board t = goal_board" "hammingDistance t = Inr 0" by simp_all
  from pu v(3) have gu: "\<not> isGoal u" "hammingDistance u = Inr 2" by simp_all
  from r v(1) v(3) gt gu have B: "\<exists>t u fr ex.
         steps (bestFirst_body hammingDistance) 2 ([root ?b], {}) = Some (t # u # fr, ex)
         \<and> h t = 0 \<and> isGoal t \<and> board t = goal_board \<and> hammingDistance t = Inr 0
         \<and> h u = 2 \<and> \<not> isGoal u \<and> hammingDistance u = Inr 2"
    by blast
  have "case steps (aStar_body manhattanDistance) 2 ([root ?b], {}) of
          Some (t # u # fr, ex) \<Rightarrow> h t = 0 \<and> g t = 2 \<and> h u = 3 \<and> g u = 1 | _ \<Rightarrow> False"
    by code_simp
  then obtain t' u' fr' ex' where
    r': "steps (aStar_body manhattanDistance) 2 ([root ?b], {}) = Some (t' # u' # fr', ex')"
    and v': "h t' = 0" "g t' = 2" "h u' = 3" "g u' = 1"
    by (auto split: option.splits prod.splits list.splits)
  from v' have ne': "t' \<noteq> root ?b" "u' \<noteq> root ?b" by auto
  have pt': "scored_by manhattanDistance t' \<and> manhattanDistance t' = Inr (h t') \<and> (h t' = 0 \<longleftrightarrow> isGoal t')
      \<and> (h t' = 0 \<longleftrightarrow> board t' = goal_board)"
    by (rule U[rule_format, where heuristic = manhattanDistance and k = 2 and fr = "t' # u' # fr'" and ex = "ex'" and t = "t'"]) (simp add: r' ne'(1))
  have pu': "scored_by manhattanDistance u' \<and> manhattanDistance u' = Inr (h u') \<and> (h u' = 0 \<longleftrightarrow> isGoal u')
      \<and> (h u' = 0 \<longleftrightarrow> board u' = goal_board)"
    by (rule U[rule_format, where heuristic = manhattanDistance and k = 2 and fr = "t' # u' # fr'" and ex = "ex'" and t = "u'"]) (simp add: r' ne'(2))
  from pt' v'(1) have gt': "isGoal t'" "board t' = goal_board" "manhattanDistance t' = Inr 0"
    by simp_all
  from pu' v'(3) have gu': "\<not> isGoal u'" "manhattanDistance u' = Inr 3" by simp_all
  from r' v'(1) v'(3) gt' gu' have C: "\<exists>t u fr ex.
         steps (aStar_body manhattanDistance) 2 ([root ?b], {}) = Some (t # u # fr, ex)
         \<and> h t = 0 \<and> isGoal t \<and> board t = goal_board \<and> manhattanDistance t = Inr 0
         \<and> h u = 3 \<and> \<not> isGoal u \<and> manhattanDistance u = Inr 3"
    by blast
  from A w2 ng B C show ?thesis by (intro conjI) ((elim conjE)?, assumption)+
qed

end
